theory Spec2Isabelle
  imports Main "HOL-Library.AList" "HOL-Library.Char_ord" "HOL-Library.List_Lexorder"
    "HOL-Library.Multiset"
begin

text \<open>
  A model of the download server: a URL is submitted over HTTP, classified, downloaded by
  one of four external engines, and the resulting file or files are uploaded to a chat,
  with the progress kept in a job record. The model follows the multi-engine server.
  \<^verbatim>\<open>server.js\<close> is the single-engine variant of the same server: its routes are the
  same, and its \<^verbatim>\<open>processQueue\<close> is the single-file path of the one modelled here
  with \<^verbatim>\<open>runYtDlp\<close> as its only adapter.
\<close>

section \<open>Strings and paths\<close>

text \<open>
  JavaScript strings are modelled as \<^typ>\<open>string\<close>. The helpers below are the
  string and path operations the server calls: \<^verbatim>\<open>toLowerCase\<close>, \<^verbatim>\<open>endsWith\<close>,
  \<^verbatim>\<open>includes\<close>, \<^verbatim>\<open>trim\<close>, \<^verbatim>\<open>split("\n")\<close>, \<^verbatim>\<open>slice(-n)\<close>, the decimal
  conversion of a number inside a template literal, \<^verbatim>\<open>path.join\<close> and
  \<^verbatim>\<open>path.basename\<close>. A character stands for a code unit below \<open>0x100\<close>; the white
  space \<^verbatim>\<open>trim\<close> strips is, in that range, the characters \<open>0x09\<close> to \<open>0x0D\<close>, the
  space \<open>0x20\<close> and the no-break space \<open>0xA0\<close>.
\<close>

definition to_lower_char :: "char \<Rightarrow> char" where
  "to_lower_char c =
     (case map_of (zip ''ABCDEFGHIJKLMNOPQRSTUVWXYZ'' ''abcdefghijklmnopqrstuvwxyz'') c of
        Some d \<Rightarrow> d
      | None \<Rightarrow> c)"

definition toLowerCase :: "string \<Rightarrow> string" where
  "toLowerCase s = map to_lower_char s"

definition endsWith :: "string \<Rightarrow> string \<Rightarrow> bool" where
  "endsWith s suf = (length suf \<le> length s \<and> drop (length s - length suf) s = suf)"

fun str_includes :: "string \<Rightarrow> string \<Rightarrow> bool" where
  "str_includes [] sub = (sub = [])"
| "str_includes (c # cs) sub = (take (length sub) (c # cs) = sub \<or> str_includes cs sub)"

definition is_space :: "char \<Rightarrow> bool" where
  "is_space c =
     (c \<in> set [CHR 0x09, CHR 0x0A, CHR 0x0B, CHR 0x0C, CHR 0x0D, CHR 0x20, CHR 0xA0])"

definition trim :: "string \<Rightarrow> string" where
  "trim s = rev (dropWhile is_space (rev (dropWhile is_space s)))"

fun split_nl :: "string \<Rightarrow> string list" where
  "split_nl [] = [[]]"
| "split_nl (c # cs) =
     (if c = CHR 0x0A then [] # split_nl cs
      else (case split_nl cs of l # ls \<Rightarrow> (c # l) # ls | [] \<Rightarrow> [[c]]))"

definition slice_last :: "nat \<Rightarrow> string \<Rightarrow> string" where
  "slice_last n s = drop (length s - n) s"

definition digit_char :: "nat \<Rightarrow> char" where
  "digit_char d = ''0123456789'' ! d"

function show_nat :: "nat \<Rightarrow> string" where
  "show_nat n = (if n < 10 then [digit_char n] else show_nat (n div 10) @ [digit_char (n mod 10)])"
  by pat_completeness auto
termination
  by (relation "measure (\<lambda>n. n)") auto

declare show_nat.simps [simp del]

definition show_int :: "int \<Rightarrow> string" where
  "show_int i = (if i < 0 then CHR ''-'' # show_nat (nat (- i)) else show_nat (nat i))"

definition path_join :: "string \<Rightarrow> string \<Rightarrow> string" where
  "path_join dir name = dir @ ''/'' @ name"

definition basename :: "string \<Rightarrow> string" where
  "basename p =
     rev (takeWhile (\<lambda>c. c \<noteq> CHR ''/'') (dropWhile (\<lambda>c. c = CHR ''/'') (rev p)))"

text \<open>A thrown value: an \<^verbatim>\<open>Error\<close> object with its \<^verbatim>\<open>name\<close> and \<^verbatim>\<open>message\<close>.
  \<open>catch_text\<close> is \<^verbatim>\<open>String(e?.message || e)\<close>: the message when it is not empty,
  otherwise \<^verbatim>\<open>Error.prototype.toString\<close>, which for an empty message is the name.\<close>

datatype js_error = JsError (err_name: string) (err_message: string)

definition new_Error :: "string \<Rightarrow> js_error" where
  "new_Error msg = JsError ''Error'' msg"

definition catch_text :: "js_error \<Rightarrow> string" where
  "catch_text e = (if err_message e \<noteq> [] then err_message e else err_name e)"

section \<open>Configuration and platform\<close>

text \<open>
  The constants the module reads from its environment at load time, and the platform's
  \<^verbatim>\<open>new URL(u)\<close>, taken as a parameter: \<open>parse_url u\<close> is \<open>None\<close> where the
  constructor throws, and otherwise gives the \<^verbatim>\<open>protocol\<close>, \<^verbatim>\<open>hostname\<close> and
  \<^verbatim>\<open>pathname\<close> of the parsed URL. The two numbers are taken to be integers.
\<close>

record parsed_url =
  protocol :: string
  hostname :: string
  pathname :: string

record config =
  MAX_CONCURRENT :: int
  AUTO_CLEANUP_MINUTES :: int
  OUT_DIR :: string
  parse_url :: "string \<Rightarrow> parsed_url option"

definition isValidUrl :: "config \<Rightarrow> string \<Rightarrow> bool" where
  "isValidUrl cfg u =
     (case parse_url cfg u of
        None \<Rightarrow> False
      | Some p \<Rightarrow> protocol p \<in> set [''http:'', ''https:''])"

section \<open>URL classifier and router\<close>

record classification =
  isDirect :: bool
  isM3u8 :: bool
  isSpotify :: bool
  host :: string

definition direct_exts :: "string list" where
  "direct_exts = [''mp4'', ''mkv'', ''webm'', ''mov'', ''mp3'', ''m4a'', ''wav'', ''flac'',
     ''ogg'', ''zip'', ''rar'', ''7z'', ''pdf'', ''jpg'', ''jpeg'', ''png'', ''webp'']"

text \<open>The regular expression \<^verbatim>\<open>/\.(mp4|mkv|...|webp)$/i\<close>: the subject, compared
  without regard to case, ends in a dot followed by one of the alternatives.\<close>

definition direct_regex_test :: "string \<Rightarrow> bool" where
  "direct_regex_test s = list_ex (\<lambda>e. endsWith (toLowerCase s) (CHR ''.'' # e)) direct_exts"

definition classify :: "config \<Rightarrow> string \<Rightarrow> js_error + classification" where
  "classify cfg rawUrl =
     (case parse_url cfg rawUrl of
        None \<Rightarrow> Inl (JsError ''TypeError'' ''Invalid URL'')
      | Some u \<Rightarrow>
          (let h = toLowerCase (hostname u);
               p = toLowerCase (pathname u)
           in Inr \<lparr> isDirect = direct_regex_test p,
                    isM3u8 = endsWith p ''.m3u8'',
                    isSpotify = str_includes h ''spotify.com'',
                    host = h \<rparr>))"

datatype engine = Aria2c | Ffmpeg | Spotdl | YtDlp

text \<open>The adapter \<^verbatim>\<open>runDownload\<close> dispatches to, or the error \<^verbatim>\<open>classify\<close> throws.\<close>

definition route :: "config \<Rightarrow> string \<Rightarrow> js_error + engine" where
  "route cfg rawUrl =
     (case classify cfg rawUrl of
        Inl e \<Rightarrow> Inl e
      | Inr c \<Rightarrow>
          Inr (if isDirect c then Aria2c
               else if isM3u8 c then Ffmpeg
               else if isSpotify c then Spotdl
               else YtDlp))"

section \<open>Job store\<close>

datatype status = Queued | Downloading | Uploading | Done | Error

record job =
  job_id :: string
  url :: string
  status :: status
  created_at :: nat
  updated_at :: nat
  file_path :: "string option"
  file_name :: "string option"
  error :: "string option"
  log :: string

text \<open>The file system as the server sees it: the regular files that exist, in the order
  a directory listing returns them, and the paths whose removal the operating system
  refuses (\<^verbatim>\<open>fs.unlinkSync\<close> throws on them).\<close>

record fs =
  files :: "string list"
  undeletable :: "string list"

definition existsSync :: "fs \<Rightarrow> string \<Rightarrow> bool" where
  "existsSync d p = (p \<in> set (files d))"

text \<open>\<^verbatim>\<open>try { fs.unlinkSync(p); } catch {}\<close>\<close>

definition try_unlink :: "string \<Rightarrow> fs \<Rightarrow> fs" where
  "try_unlink p d =
     (if p \<in> set (files d) \<and> p \<notin> set (undeletable d)
      then d\<lparr>files := removeAll p (files d)\<rparr>
      else d)"

text \<open>\<^verbatim>\<open>fs.readdirSync(dir).map(f => path.join(dir, f)).filter(fp => fs.statSync(fp).isFile())\<close>\<close>

definition readdir_files :: "fs \<Rightarrow> string \<Rightarrow> string list" where
  "readdir_files d dir =
     filter (\<lambda>fp. take (Suc (length dir)) fp = dir @ ''/''
                \<and> drop (Suc (length dir)) fp \<noteq> []
                \<and> CHR ''/'' \<notin> set (drop (Suc (length dir)) fp))
       (files d)"

section \<open>Engine adapters\<close>

text \<open>
  Each adapter spawns a subprocess and returns a promise. Its handlers are modelled one by
  one: what a chunk of standard output or standard error does to the adapter's local
  variables \<^verbatim>\<open>finalPath\<close> and \<^verbatim>\<open>stderr\<close>, and what the \<^verbatim>\<open>close\<close> handler
  settles the promise with. The exit code is \<open>None\<close> for JavaScript's \<^verbatim>\<open>null\<close>
  (the subprocess was ended by a signal).
\<close>

datatype download_result = Single string | Multi "string list"

definition show_code :: "int option \<Rightarrow> string" where
  "show_code code = (case code of None \<Rightarrow> ''null'' | Some c \<Rightarrow> show_int c)"

definition job_dir :: "config \<Rightarrow> string \<Rightarrow> string" where
  "job_dir cfg i = path_join (OUT_DIR cfg) (''job_'' @ i)"

definition on_stdout :: "config \<Rightarrow> engine \<Rightarrow> string \<Rightarrow> string \<Rightarrow> string" where
  "on_stdout cfg g chunk finalPath =
     (case g of
        YtDlp \<Rightarrow>
          foldl (\<lambda>fp line. if str_includes line (OUT_DIR cfg) then line else fp) finalPath
            (filter (\<lambda>x. x \<noteq> []) (map trim (split_nl chunk)))
      | _ \<Rightarrow> finalPath)"

definition on_stderr :: "engine \<Rightarrow> string \<Rightarrow> string \<Rightarrow> string" where
  "on_stderr g chunk stderr = (case g of Ffmpeg \<Rightarrow> stderr | _ \<Rightarrow> stderr @ chunk)"

definition on_close ::
  "config \<Rightarrow> engine \<Rightarrow> string \<Rightarrow> int option \<Rightarrow> string \<Rightarrow> string \<Rightarrow> fs \<Rightarrow> js_error + download_result"
where
  "on_close cfg g i code finalPath stderr d =
     (case g of
        YtDlp \<Rightarrow>
          (if code = Some 0 \<and> finalPath \<noteq> [] \<and> existsSync d finalPath
           then Inr (Single finalPath)
           else Inl (new_Error (''yt-dlp exit code '' @ show_code code @ ''. '' @ slice_last 400 stderr)))
      | Aria2c \<Rightarrow>
          (if code \<noteq> Some 0
           then Inl (new_Error (''aria2c exit code '' @ show_code code @ ''. '' @ slice_last 400 stderr))
           else (case readdir_files d (job_dir cfg i) of
                   [] \<Rightarrow> Inl (new_Error ''aria2c selesai tapi file tidak ditemukan.'')
                 | f # fs \<Rightarrow> Inr (Single f)))
      | Ffmpeg \<Rightarrow>
          (if code = Some 0 \<and> existsSync d (path_join (OUT_DIR cfg) (''job_'' @ i @ ''.mp4''))
           then Inr (Single (path_join (OUT_DIR cfg) (''job_'' @ i @ ''.mp4'')))
           else Inl (new_Error (''ffmpeg exit code '' @ show_code code)))
      | Spotdl \<Rightarrow>
          (if code \<noteq> Some 0
           then Inl (new_Error (''spotdl exit code '' @ show_code code @ ''. '' @ slice_last 400 stderr))
           else (case readdir_files d (job_dir cfg i) of
                   [] \<Rightarrow> Inl (new_Error ''spotdl selesai tapi file tidak ditemukan.'')
                 | f # fs \<Rightarrow> Inr (Multi (f # fs)))))"

text \<open>The \<^verbatim>\<open>close\<close> handler of \<^verbatim>\<open>runYtDlp\<close> in \<^verbatim>\<open>server.js\<close>, the single-engine
  variant of the server. That adapter registers no \<^verbatim>\<open>error\<close> handler and keeps no
  copy of standard error.\<close>

definition runYtDlp_close :: "int option \<Rightarrow> string \<Rightarrow> fs \<Rightarrow> js_error + string" where
  "runYtDlp_close code finalPath d =
     (if code = Some 0 \<and> finalPath \<noteq> [] \<and> existsSync d finalPath
      then Inr finalPath
      else Inl (new_Error (''yt-dlp exit code '' @ show_code code @ ''. finalPath=''
                  @ (if finalPath \<noteq> [] then finalPath else ''(none)''))))"

section \<open>Server state\<close>

text \<open>
  A call of \<^verbatim>\<open>processQueue\<close> runs until its next \<^verbatim>\<open>await\<close> and is then suspended;
  \<open>pc\<close> names the \<^verbatim>\<open>await\<close> a suspended call stands at, with the local variables it
  still needs. The state holds the module's globals (\<^verbatim>\<open>jobs\<close>, \<^verbatim>\<open>running\<close>,
  \<^verbatim>\<open>queue\<close>), the suspended calls, the pending \<^verbatim>\<open>setImmediate(processQueue)\<close>
  callbacks, the pending cleanup timers (job id and delay in milliseconds), the disk, the
  calls made to the notifier and the subprocesses spawned, in order, and the clock
  \<^verbatim>\<open>nowISO()\<close> reads.
\<close>

datatype pc =
    AwaitStart
  | AwaitDownload engine string string
  | AwaitPlaylistMsg "string list"
  | AwaitItem "string list" nat string "string list"
  | AwaitPlaylistDone
  | AwaitSingleUpload string
  | AwaitSingleDone
  | AwaitFailMsg

record task =
  tid :: string
  turl :: string
  pc :: pc

datatype effect =
    SendMessage string
  | SendFile string string
  | Spawn engine string string

record state =
  jobs :: "(string \<times> job) list"
  running :: int
  queue :: "string list"
  tasks :: "task list"
  immediates :: nat
  timers :: "(string \<times> int) list"
  disk :: fs
  outbox :: "effect list"
  clock :: nat

definition init :: "fs \<Rightarrow> state" where
  "init d = \<lparr> jobs = [], running = 0, queue = [], tasks = [], immediates = 0,
              timers = [], disk = d, outbox = [], clock = 0 \<rparr>"

text \<open>\<^verbatim>\<open>setJob(id, patch)\<close>; the patch is the record update it spreads over the
  current record.\<close>

definition setJob :: "string \<Rightarrow> (job \<Rightarrow> job) \<Rightarrow> state \<Rightarrow> state" where
  "setJob i patch s =
     (case map_of (jobs s) i of
        None \<Rightarrow> s
      | Some cur \<Rightarrow> s\<lparr>jobs := AList.update i ((patch cur)\<lparr>updated_at := clock s\<rparr>) (jobs s)\<rparr>)"

definition pushLog :: "string \<Rightarrow> string \<Rightarrow> state \<Rightarrow> state" where
  "pushLog i txt s =
     (case map_of (jobs s) i of
        None \<Rightarrow> s
      | Some cur \<Rightarrow>
          s\<lparr>jobs := AList.update i (cur\<lparr>log := log cur @ txt, updated_at := clock s\<rparr>) (jobs s)\<rparr>)"

text \<open>The notifier is an external collaborator: a call is recorded, and whether its
  promise resolves or rejects is the environment's choice when the call settles.\<close>

definition tgSendMessage :: "string \<Rightarrow> state \<Rightarrow> state" where
  "tgSendMessage txt s = s\<lparr>outbox := outbox s @ [SendMessage txt]\<rparr>"

definition tgSendFileChecked :: "string \<Rightarrow> string \<Rightarrow> state \<Rightarrow> state" where
  "tgSendFileChecked filePath caption s = s\<lparr>outbox := outbox s @ [SendFile filePath caption]\<rparr>"

definition set_pc :: "nat \<Rightarrow> pc \<Rightarrow> state \<Rightarrow> state" where
  "set_pc n p s = s\<lparr>tasks := (tasks s)[n := (tasks s ! n)\<lparr>pc := p\<rparr>]\<rparr>"

section \<open>The queue processor\<close>

definition start_text :: "string \<Rightarrow> string \<Rightarrow> string" where
  "start_text i u = ''Mulai download.\<newline>Job: '' @ i @ ''\<newline>URL: '' @ u"

definition playlist_text :: "string \<Rightarrow> nat \<Rightarrow> string" where
  "playlist_text i n =
     ''Playlist/multi-item.\<newline>Job: '' @ i @ ''\<newline>Items: '' @ show_nat n
       @ ''\<newline>Mulai upload satu-satu...''"

definition item_caption :: "string \<Rightarrow> nat \<Rightarrow> nat \<Rightarrow> string \<Rightarrow> string" where
  "item_caption i sent n fp =
     ''('' @ show_nat sent @ ''/'' @ show_nat n @ '')\<newline>Job: '' @ i
       @ ''\<newline>File: '' @ basename fp"

definition playlist_done_text :: "string \<Rightarrow> nat \<Rightarrow> string" where
  "playlist_done_text i n =
     ''Selesai upload playlist.\<newline>Job: '' @ i @ ''\<newline>Total: '' @ show_nat n @ '' files''"

definition single_caption :: "string \<Rightarrow> string \<Rightarrow> string \<Rightarrow> string" where
  "single_caption i fileName u =
     ''Selesai download.\<newline>Job: '' @ i @ ''\<newline>File: '' @ fileName
       @ ''\<newline>Source: '' @ u"

definition single_done_text :: "string \<Rightarrow> string" where
  "single_done_text i = ''Upload beres.\<newline>Job: '' @ i"

definition fail_text :: "string \<Rightarrow> js_error \<Rightarrow> string" where
  "fail_text i e = ''Job gagal.\<newline>Job: '' @ i @ ''\<newline>Error: '' @ catch_text e"

text \<open>\<^verbatim>\<open>processQueue\<close> from its entry to its first \<^verbatim>\<open>await\<close> (the "starting"
  notification).\<close>

definition processQueue :: "config \<Rightarrow> state \<Rightarrow> state" where
  "processQueue cfg s =
     (if MAX_CONCURRENT cfg \<le> running s then s
      else (case queue s of
              [] \<Rightarrow> s
            | i # rest \<Rightarrow>
                (let s1 = s\<lparr>queue := rest, running := running s + 1\<rparr>
                 in (case map_of (jobs s1) i of
                       None \<Rightarrow> s1\<lparr>running := running s1 - 1\<rparr>
                     | Some j \<Rightarrow>
                         (let s2 = setJob i (\<lambda>r. r\<lparr>status := Downloading\<rparr>) s1;
                              s3 = tgSendMessage (start_text i (url j)) s2
                          in s3\<lparr>tasks := tasks s3 @ [\<lparr>tid = i, turl = url j, pc = AwaitStart\<rparr>]\<rparr>)))))"

text \<open>The \<^verbatim>\<open>catch\<close> block up to its \<^verbatim>\<open>await\<close>, and the \<^verbatim>\<open>finally\<close> block.\<close>

definition catch_block :: "nat \<Rightarrow> js_error \<Rightarrow> state \<Rightarrow> state" where
  "catch_block n e s =
     (let i = tid (tasks s ! n);
          s1 = setJob i (\<lambda>r. r\<lparr>status := Error, error := Some (catch_text e)\<rparr>) s;
          s2 = tgSendMessage (fail_text i e) s1
      in set_pc n AwaitFailMsg s2)"

definition finally_block :: "nat \<Rightarrow> state \<Rightarrow> state" where
  "finally_block n s =
     s\<lparr>running := running s - 1,
       immediates := Suc (immediates s),
       tasks := take n (tasks s) @ drop (Suc n) (tasks s)\<rparr>"

text \<open>\<^verbatim>\<open>runDownload\<close> up to the spawn of the subprocess; \<^verbatim>\<open>classify\<close> may throw.\<close>

definition runDownload :: "config \<Rightarrow> nat \<Rightarrow> state \<Rightarrow> state" where
  "runDownload cfg n s =
     (let t = tasks s ! n
      in (case route cfg (turl t) of
            Inl e \<Rightarrow> catch_block n e s
          | Inr g \<Rightarrow>
              set_pc n (AwaitDownload g [] []) (s\<lparr>outbox := outbox s @ [Spawn g (tid t) (turl t)]\<rparr>)))"

text \<open>The head of the \<^verbatim>\<open>for (const fp of files)\<close> loop: with no file left the job is
  marked done and the closing message is sent; otherwise \<^verbatim>\<open>sent\<close> is incremented and
  the next file is uploaded.\<close>

definition upload_items :: "nat \<Rightarrow> string list \<Rightarrow> nat \<Rightarrow> string list \<Rightarrow> state \<Rightarrow> state" where
  "upload_items n fls sent rest s =
     (let i = tid (tasks s ! n)
      in (case rest of
            [] \<Rightarrow>
              (let s1 = setJob i (\<lambda>r. r\<lparr>status := Done\<rparr>) s;
                   s2 = tgSendMessage (playlist_done_text i (length fls)) s1
               in set_pc n AwaitPlaylistDone s2)
          | fp # rest' \<Rightarrow>
              (let s1 = tgSendFileChecked fp (item_caption i (Suc sent) (length fls) fp) s
               in set_pc n (AwaitItem fls (Suc sent) fp rest') s1)))"

text \<open>What follows \<^verbatim>\<open>await runDownload(id, job.url)\<close> once the adapter has returned
  \<open>res\<close>, up to the next \<^verbatim>\<open>await\<close>.\<close>

definition after_download :: "nat \<Rightarrow> download_result \<Rightarrow> state \<Rightarrow> state" where
  "after_download n res s =
     (let t = tasks s ! n;
          i = tid t;
          s1 = setJob i (\<lambda>r. r\<lparr>status := Uploading\<rparr>) s
      in (case res of
            Multi result \<Rightarrow>
              (let fls = sort result;
                   s2 = setJob i (\<lambda>r. r\<lparr>file_name := Some (show_nat (length fls) @ '' files''),
                                         file_path := None\<rparr>) s1;
                   s3 = tgSendMessage (playlist_text i (length fls)) s2
               in set_pc n (AwaitPlaylistMsg fls) s3)
          | Single filePath \<Rightarrow>
              (let fileName = basename filePath;
                   s2 = setJob i (\<lambda>r. r\<lparr>file_path := Some filePath, file_name := Some fileName\<rparr>) s1;
                   s3 = tgSendFileChecked filePath (single_caption i fileName (turl t)) s2
               in set_pc n (AwaitSingleUpload filePath) s3)))"

definition cleanup_delay :: "config \<Rightarrow> int" where
  "cleanup_delay cfg = max 1 (AUTO_CLEANUP_MINUTES cfg) * 60 * 1000"



text \<open>A notifier promise awaited by the suspended call \<open>n\<close> settles: rejected with an
  error (\<open>Inl\<close>) or resolved.\<close>

definition on_settle :: "config \<Rightarrow> nat \<Rightarrow> js_error + unit \<Rightarrow> state \<Rightarrow> state" where
  "on_settle cfg n r s =
     (let t = tasks s ! n; i = tid t
      in (case pc t of
            AwaitStart \<Rightarrow>
              (case r of Inl e \<Rightarrow> catch_block n e s | Inr _ \<Rightarrow> runDownload cfg n s)
          | AwaitDownload g fp err \<Rightarrow> s
          | AwaitPlaylistMsg fls \<Rightarrow>
              (case r of Inl e \<Rightarrow> catch_block n e s | Inr _ \<Rightarrow> upload_items n fls 0 fls s)
          | AwaitItem fls sent fp rest \<Rightarrow>
              (case r of
                 Inl e \<Rightarrow> catch_block n e s
               | Inr _ \<Rightarrow> upload_items n fls sent rest (s\<lparr>disk := try_unlink fp (disk s)\<rparr>))
          | AwaitPlaylistDone \<Rightarrow>
              (case r of Inl e \<Rightarrow> catch_block n e s | Inr _ \<Rightarrow> finally_block n s)
          | AwaitSingleUpload filePath \<Rightarrow>
              (case r of
                 Inl e \<Rightarrow> catch_block n e s
               | Inr _ \<Rightarrow>
                   (let s1 = setJob i (\<lambda>r. r\<lparr>status := Done\<rparr>) s;
                        s2 = tgSendMessage (single_done_text i) s1
                    in set_pc n AwaitSingleDone s2))
          | AwaitSingleDone \<Rightarrow>
              (case r of
                 Inl e \<Rightarrow> catch_block n e s
               | Inr _ \<Rightarrow> finally_block n (s\<lparr>timers := timers s @ [(i, cleanup_delay cfg)]\<rparr>))
          | AwaitFailMsg \<Rightarrow> finally_block n s))"

text \<open>The subprocess of the suspended call \<open>n\<close>: a chunk on standard output, a chunk on
  standard error, the \<^verbatim>\<open>error\<close> event and the \<^verbatim>\<open>close\<close> event. They reach the
  adapter only while the call awaits it.\<close>

definition on_data :: "config \<Rightarrow> bool \<Rightarrow> nat \<Rightarrow> string \<Rightarrow> state \<Rightarrow> state" where
  "on_data cfg is_err n chunk s =
     (let t = tasks s ! n
      in (case pc t of
            AwaitDownload g fp err \<Rightarrow>
              set_pc n
                (if is_err then AwaitDownload g fp (on_stderr g chunk err)
                 else AwaitDownload g (on_stdout cfg g chunk fp) err)
                (pushLog (tid t) chunk s)
          | _ \<Rightarrow> s))"

definition on_proc_error :: "nat \<Rightarrow> js_error \<Rightarrow> state \<Rightarrow> state" where
  "on_proc_error n e s =
     (case pc (tasks s ! n) of
        AwaitDownload g fp err \<Rightarrow> catch_block n e s
      | _ \<Rightarrow> s)"

definition on_proc_close :: "config \<Rightarrow> nat \<Rightarrow> int option \<Rightarrow> state \<Rightarrow> state" where
  "on_proc_close cfg n code s =
     (let t = tasks s ! n
      in (case pc t of
            AwaitDownload g fp err \<Rightarrow>
              (case on_close cfg g (tid t) code fp err (disk s) of
                 Inl e \<Rightarrow> catch_block n e s
               | Inr res \<Rightarrow> after_download n res s)
          | _ \<Rightarrow> s))"

text \<open>The callback of the cleanup timer.\<close>

definition cleanup_fire :: "string \<Rightarrow> state \<Rightarrow> state" where
  "cleanup_fire i s =
     (case map_of (jobs s) i of
        None \<Rightarrow> s
      | Some cur \<Rightarrow>
          (case file_path cur of
             None \<Rightarrow> s
           | Some p \<Rightarrow>
               (if p \<noteq> [] \<and> existsSync (disk s) p
                then s\<lparr>disk := try_unlink p (disk s)\<rparr>
                else s)))"

section \<open>Routes\<close>

datatype response =
    Status400 string
  | Status404 string
  | Created string string
  | JobJson job

text \<open>\<^verbatim>\<open>POST /api/jobs\<close>. \<open>body_url\<close> is \<^verbatim>\<open>req.body?.url\<close> as a string, \<open>None\<close>
  when it is absent, and \<open>nid\<close> is what \<^verbatim>\<open>nanoid(10)\<close> returns.\<close>

definition post_jobs :: "config \<Rightarrow> string option \<Rightarrow> string \<Rightarrow> state \<Rightarrow> response \<times> state" where
  "post_jobs cfg body_url nid s =
     (let u = trim (case body_url of None \<Rightarrow> [] | Some x \<Rightarrow> x)
      in if u = [] \<or> \<not> isValidUrl cfg u then (Status400 ''URL tidak valid.'', s)
         else (Created nid ''queued'',
               s\<lparr>jobs := AList.update nid
                    \<lparr> job_id = nid, url = u, status = Queued, created_at = clock s,
                      updated_at = clock s, file_path = None, file_name = None,
                      error = None, log = [] \<rparr> (jobs s),
                 queue := queue s @ [nid],
                 immediates := Suc (immediates s)\<rparr>))"

text \<open>\<^verbatim>\<open>GET /api/jobs/:id\<close>.\<close>

definition get_job :: "string \<Rightarrow> state \<Rightarrow> response \<times> state" where
  "get_job i s =
     (case map_of (jobs s) i of
        None \<Rightarrow> (Status404 ''Job tidak ditemukan.'', s)
      | Some j \<Rightarrow> (JobJson (j\<lparr>log := slice_last 8000 (log j)\<rparr>), s))"

section \<open>Executions\<close>

text \<open>
  One event is one turn of the event loop: a request, a pending
  \<^verbatim>\<open>setImmediate(processQueue)\<close> callback, the settling of an awaited notifier call,
  a subprocess event, a cleanup timer firing, or a change the environment makes (a file
  written, removed or made undeletable, the clock advancing). An event that does not
  apply to the state leaves it unchanged.
\<close>

datatype event =
    Post "string option" string
  | Get string
  | Immediate
  | Settle nat "js_error + unit"
  | Stdout nat string
  | Stderr nat string
  | ProcError nat js_error
  | Close nat "int option"
  | Timeout nat
  | FsWrite string
  | FsRemove string
  | FsProtect string
  | Tick

definition step :: "config \<Rightarrow> event \<Rightarrow> state \<Rightarrow> state" where
  "step cfg ev s =
     (case ev of
        Post body_url nid \<Rightarrow> snd (post_jobs cfg body_url nid s)
      | Get i \<Rightarrow> snd (get_job i s)
      | Immediate \<Rightarrow>
          (if immediates s = 0 then s
           else processQueue cfg (s\<lparr>immediates := immediates s - 1\<rparr>))
      | Settle n r \<Rightarrow> (if n < length (tasks s) then on_settle cfg n r s else s)
      | Stdout n chunk \<Rightarrow> (if n < length (tasks s) then on_data cfg False n chunk s else s)
      | Stderr n chunk \<Rightarrow> (if n < length (tasks s) then on_data cfg True n chunk s else s)
      | ProcError n e \<Rightarrow> (if n < length (tasks s) then on_proc_error n e s else s)
      | Close n code \<Rightarrow> (if n < length (tasks s) then on_proc_close cfg n code s else s)
      | Timeout k \<Rightarrow>
          (if k < length (timers s)
           then cleanup_fire (fst (timers s ! k))
                  (s\<lparr>timers := take k (timers s) @ drop (Suc k) (timers s)\<rparr>)
           else s)
      | FsWrite p \<Rightarrow>
          s\<lparr>disk := (disk s)\<lparr>files := (if p \<in> set (files (disk s)) then files (disk s)
                                         else files (disk s) @ [p])\<rparr>\<rparr>
      | FsRemove p \<Rightarrow> s\<lparr>disk := (disk s)\<lparr>files := removeAll p (files (disk s))\<rparr>\<rparr>
      | FsProtect p \<Rightarrow> s\<lparr>disk := (disk s)\<lparr>undeletable := List.insert p (undeletable (disk s))\<rparr>\<rparr>
      | Tick \<Rightarrow> s\<lparr>clock := Suc (clock s)\<rparr>)"

fun run :: "config \<Rightarrow> event list \<Rightarrow> state \<Rightarrow> state" where
  "run cfg [] s = s"
| "run cfg (ev # evs) s = run cfg evs (step cfg ev s)"

section \<open>The routing precedence as the specification words it\<close>

text \<open>
  The specification sends a URL to the music-service adapter when its host \<^emph>\<open>belongs to\<close>
  the domain \<^verbatim>\<open>spotify.com\<close>: the host is the domain or one of its subdomains.
  \<open>claimed_route\<close> is the precedence of the specification with that reading; it is
  compared with \<open>route\<close>, which is the code.
\<close>

definition belongs_to_domain :: "string \<Rightarrow> string \<Rightarrow> bool" where
  "belongs_to_domain h d = (h = d \<or> endsWith h (CHR ''.'' # d))"


definition claimed_route :: "parsed_url \<Rightarrow> engine" where
  "claimed_route p =
     (if direct_regex_test (pathname p) then Aria2c
      else if endsWith (toLowerCase (pathname p)) ''.m3u8'' then Ffmpeg
      else if belongs_to_domain (toLowerCase (hostname p)) ''spotify.com'' then Spotdl
      else YtDlp)"

section \<open>Submissions as the specification words them\<close>

text \<open>
  The URL of a submission is the text the endpoint validates: the \<^verbatim>\<open>url\<close> of the
  request body, trimmed. It is invalid when it is empty, malformed (the parser rejects
  it), or has a scheme other than \<^verbatim>\<open>http\<close> and \<^verbatim>\<open>https\<close>.
\<close>

definition invalid_url :: "config \<Rightarrow> string \<Rightarrow> bool" where
  "invalid_url cfg u =
     (u = [] \<or> parse_url cfg u = None
      \<or> (\<exists>p. parse_url cfg u = Some p \<and> protocol p \<noteq> ''http:'' \<and> protocol p \<noteq> ''https:''))"

definition submitted_url :: "string option \<Rightarrow> string" where
  "submitted_url body_url = trim (case body_url of None \<Rightarrow> [] | Some x \<Rightarrow> x)"

section \<open>The concurrency gate: in-flight jobs and the invariant\<close>

text \<open>
  The number of in-flight jobs is the number of job records whose status is
  \<open>Downloading\<close> or \<open>Uploading\<close>. The invariant relates it to the counter
  \<^verbatim>\<open>running\<close>: the counter is the number of suspended calls of \<^verbatim>\<open>processQueue\<close>, it
  never exceeds the ceiling, the keys of the registry are distinct, and every record with
  an active status is the job of a suspended call that has not yet written a terminal
  status.
\<close>

definition active :: "status \<Rightarrow> bool" where
  "active st = (st = Downloading \<or> st = Uploading)"

definition in_flight :: "state \<Rightarrow> nat" where
  "in_flight s = length (filter (\<lambda>(k, j). active (status j)) (jobs s))"

definition pre_terminal :: "pc \<Rightarrow> bool" where
  "pre_terminal p =
     (case p of
        AwaitPlaylistDone \<Rightarrow> False
      | AwaitSingleDone \<Rightarrow> False
      | AwaitFailMsg \<Rightarrow> False
      | _ \<Rightarrow> True)"

definition active_ids :: "state \<Rightarrow> string set" where
  "active_ids s = {k. \<exists>j. map_of (jobs s) k = Some j \<and> active (status j)}"

definition live_ids :: "state \<Rightarrow> string set" where
  "live_ids s = tid ` {t \<in> set (tasks s). pre_terminal (pc t)}"

definition covered :: "state \<Rightarrow> bool" where
  "covered s = (active_ids s \<subseteq> live_ids s)"

definition gate_inv :: "config \<Rightarrow> state \<Rightarrow> bool" where
  "gate_inv cfg s =
     (running s = int (length (tasks s)) \<and> running s \<le> MAX_CONCURRENT cfg
      \<and> distinct (map fst (jobs s)) \<and> covered s)"

section \<open>Deliveries\<close>

text \<open>
  The files handed to the notifier, in the order of the calls; a list of files unlinked
  one after the other, failures ignored; and the state after \<open>k\<close> consecutive notifier
  calls of the suspended call \<open>n\<close> have succeeded.
\<close>

definition sent_files :: "effect list \<Rightarrow> string list" where
  "sent_files out = concat (map (\<lambda>e. case e of SendFile fp cap \<Rightarrow> [fp] | _ \<Rightarrow> []) out)"

definition unlink_all :: "string list \<Rightarrow> fs \<Rightarrow> fs" where
  "unlink_all fps d = foldl (\<lambda>d' f. try_unlink f d') d fps"

definition deliver :: "config \<Rightarrow> nat \<Rightarrow> nat \<Rightarrow> state \<Rightarrow> state" where
  "deliver cfg n k s = run cfg (replicate k (Settle n (Inr ()))) s"

section \<open>Terminal states: the three outcomes and the invariant\<close>

text \<open>
  The three outcomes of the specification, as it words them: \<open>file_path\<close> is set; \<open>file_name\<close>
  is an item-count summary (a decimal number followed by \<^verbatim>\<open> files\<close>) and \<open>file_path\<close> is
  null; \<open>error\<close> is set. The ids of a run are fresh when every submission gets an id no
  record has yet. The invariant ties each record to where its job is: a queued job has
  the record it was created with, a job in the pipeline has the fields its \<^verbatim>\<open>await\<close>
  point implies, and every other record is that of a finished job.
\<close>

definition is_summary :: "string option \<Rightarrow> bool" where
  "is_summary fn = (\<exists>n. fn = Some (show_nat n @ '' files''))"

definition single_file_success :: "job \<Rightarrow> bool" where
  "single_file_success j = (file_path j \<noteq> None)"

definition multi_file_success :: "job \<Rightarrow> bool" where
  "multi_file_success j = (is_summary (file_name j) \<and> file_path j = None)"

definition failure :: "job \<Rightarrow> bool" where
  "failure j = (error j \<noteq> None)"

definition exactly_one :: "bool list \<Rightarrow> bool" where
  "exactly_one bs = (length (filter (\<lambda>b. b) bs) = 1)"

definition terminal_shape :: "job \<Rightarrow> bool" where
  "terminal_shape j =
     (case status j of
        Done \<Rightarrow> error j = None
                 \<and> (file_path j \<noteq> None \<or> (file_path j = None \<and> is_summary (file_name j)))
      | Error \<Rightarrow> error j \<noteq> None
      | _ \<Rightarrow> True)"

fun fresh_ids :: "config \<Rightarrow> event list \<Rightarrow> state \<Rightarrow> bool" where
  "fresh_ids cfg [] s = True"
| "fresh_ids cfg (ev # evs) s =
     ((case ev of Post body_url nid \<Rightarrow> nid \<notin> fst ` set (jobs s) | _ \<Rightarrow> True)
      \<and> fresh_ids cfg evs (step cfg ev s))"

definition fresh_shape :: "job \<Rightarrow> bool" where
  "fresh_shape j = (status j = Queued \<and> file_path j = None \<and> file_name j = None \<and> error j = None)"

definition pc_shape :: "pc \<Rightarrow> job \<Rightarrow> bool" where
  "pc_shape p j =
     (case p of
        AwaitStart \<Rightarrow>
          status j = Downloading \<and> file_path j = None \<and> file_name j = None \<and> error j = None
      | AwaitDownload g fp err \<Rightarrow>
          status j = Downloading \<and> file_path j = None \<and> file_name j = None \<and> error j = None
      | AwaitPlaylistMsg fls \<Rightarrow>
          status j = Uploading \<and> file_path j = None \<and> is_summary (file_name j) \<and> error j = None
      | AwaitItem fls sent fp rest \<Rightarrow>
          status j = Uploading \<and> file_path j = None \<and> is_summary (file_name j) \<and> error j = None
      | AwaitPlaylistDone \<Rightarrow>
          status j = Done \<and> file_path j = None \<and> is_summary (file_name j) \<and> error j = None
      | AwaitSingleUpload filePath \<Rightarrow>
          status j = Uploading \<and> file_path j \<noteq> None \<and> error j = None
      | AwaitSingleDone \<Rightarrow>
          status j = Done \<and> file_path j \<noteq> None \<and> error j = None
      | AwaitFailMsg \<Rightarrow> status j = Error \<and> error j \<noteq> None)"

definition final_shape :: "job \<Rightarrow> bool" where
  "final_shape j =
     ((status j = Done \<and> error j = None
         \<and> (file_path j \<noteq> None \<or> (file_path j = None \<and> is_summary (file_name j))))
      \<or> (status j = Error \<and> error j \<noteq> None))"

definition pipe_inv :: "state \<Rightarrow> bool" where
  "pipe_inv s =
     (distinct (queue s @ map tid (tasks s))
      \<and> (\<forall>k\<in>set (queue s). \<exists>j. map_of (jobs s) k = Some j \<and> fresh_shape j)
      \<and> (\<forall>t\<in>set (tasks s). \<exists>j. map_of (jobs s) (tid t) = Some j \<and> pc_shape (pc t) j)
      \<and> (\<forall>k j. map_of (jobs s) k = Some j \<longrightarrow> k \<notin> set (queue s)
             \<longrightarrow> k \<notin> tid ` set (tasks s) \<longrightarrow> final_shape j))"

section \<open>A concrete configuration\<close>

text \<open>A configuration, with a table standing for the URL parser on the URLs the
  examples use, at which the theorems below are instantiated.\<close>

definition demo_parse :: "string \<Rightarrow> parsed_url option" where
  "demo_parse = map_of
     [(''https://example.com/video.mp4'',
         \<lparr>protocol = ''https:'', hostname = ''example.com'', pathname = ''/video.mp4''\<rparr>),
      (''https://open.spotify.com/playlist/abc'',
         \<lparr>protocol = ''https:'', hostname = ''open.spotify.com'', pathname = ''/playlist/abc''\<rparr>),
      (''https://notspotify.com.example.org/watch'',
         \<lparr>protocol = ''https:'', hostname = ''notspotify.com.example.org'', pathname = ''/watch''\<rparr>),
      (''https://cdn.example.com/live/index.m3u8'',
         \<lparr>protocol = ''https:'', hostname = ''cdn.example.com'', pathname = ''/live/index.m3u8''\<rparr>),
      (''https://video.example.com/watch'',
         \<lparr>protocol = ''https:'', hostname = ''video.example.com'', pathname = ''/watch''\<rparr>),
      (''ftp://example.com/a.zip'',
         \<lparr>protocol = ''ftp:'', hostname = ''example.com'', pathname = ''/a.zip''\<rparr>)]"

definition demo_cfg :: config where
  "demo_cfg = \<lparr> MAX_CONCURRENT = 1, AUTO_CLEANUP_MINUTES = 60, OUT_DIR = ''/srv/downloads'',
                 parse_url = demo_parse \<rparr>"

definition demo_fs :: fs where
  "demo_fs = \<lparr> files = [], undeletable = [] \<rparr>"

definition demo_url :: string where
  "demo_url = ''https://example.com/video.mp4''"

definition demo_started :: state where
  "demo_started = run demo_cfg [Post (Some demo_url) ''A'', Immediate] (init demo_fs)"

definition tg_down :: js_error where
  "tg_down = new_Error ''TG sendMessage failed: 502 Bad Gateway''"


definition demo_downloading :: state where
  "demo_downloading = run demo_cfg [Settle 0 (Inr ()), Stderr 0 ''connection refused''] demo_started"

definition demo_file :: string where
  "demo_file = ''/srv/downloads/job_A/video.mp4''"

definition demo_single_uploading :: state where
  "demo_single_uploading =
     run demo_cfg [Settle 0 (Inr ()), FsWrite demo_file, Close 0 (Some 0)] demo_started"

definition demo_single_done :: state where
  "demo_single_done = step demo_cfg (Settle 0 (Inr ())) demo_single_uploading"


definition demo_job :: job where
  "demo_job = \<lparr> job_id = ''A'', url = demo_url, status = Uploading, created_at = 0,
                 updated_at = 0, file_path = Some demo_file, file_name = Some ''video.mp4'',
                 error = None, log = [] \<rparr>"

definition demo_two_jobs :: state where
  "demo_two_jobs =
     run demo_cfg [Post (Some demo_url) ''A'', Post (Some demo_url) ''B'', Immediate, Immediate]
       (init demo_fs)"

definition demo_playlist_url :: string where
  "demo_playlist_url = ''https://open.spotify.com/playlist/abc''"

definition track_a :: string where
  "track_a = ''/srv/downloads/job_P/a.mp3''"

definition track_b :: string where
  "track_b = ''/srv/downloads/job_P/b.mp3''"

definition demo_playlist_downloading :: state where
  "demo_playlist_downloading =
     run demo_cfg [Post (Some demo_playlist_url) ''P'', Immediate, Settle 0 (Inr ()),
                   FsWrite track_b, FsWrite track_a, FsProtect track_a] (init demo_fs)"

definition demo_playlist_unprotected :: state where
  "demo_playlist_unprotected =
     run demo_cfg [Post (Some demo_playlist_url) ''P'', Immediate, Settle 0 (Inr ()),
                   FsWrite track_b, FsWrite track_a] (init demo_fs)"

definition demo_playlist_job :: job where
  "demo_playlist_job = \<lparr> job_id = ''P'', url = demo_playlist_url, status = Downloading,
      created_at = 0, updated_at = 0, file_path = None, file_name = None, error = None,
      log = [] \<rparr>"

definition demo_playlist_uploading :: state where
  "demo_playlist_uploading = step demo_cfg (Close 0 (Some 0)) demo_playlist_downloading"

definition demo_single_events :: "event list" where
  "demo_single_events =
     [Post (Some demo_url) ''A'', Immediate, Settle 0 (Inr ()), FsWrite demo_file,
      Close 0 (Some 0), Settle 0 (Inr ())]"

section \<open>Facts about the string operations\<close>

lemma endsWith_iff: "endsWith s suf \<longleftrightarrow> (\<exists>stem. s = stem @ suf)"
proof
  assume "endsWith s suf"
  then have "s = take (length s - length suf) s @ suf"
    by (metis append_take_drop_id endsWith_def)
  then show "\<exists>stem. s = stem @ suf" ..
next
  assume "\<exists>stem. s = stem @ suf"
  then show "endsWith s suf" by (auto simp: endsWith_def)
qed

lemma take_prefix_iff: "take (length sub) s = sub \<longleftrightarrow> (\<exists>b. s = sub @ b)"
  by (metis append_eq_conv_conj append_take_drop_id)

lemma str_includes_iff: "str_includes s sub \<longleftrightarrow> (\<exists>a b. s = a @ sub @ b)"
proof (induction s)
  case Nil
  then show ?case by auto
next
  case (Cons c cs)
  show ?case
  proof
    assume "str_includes (c # cs) sub"
    then consider "take (length sub) (c # cs) = sub" | "str_includes cs sub" by auto
    then show "\<exists>a b. c # cs = a @ sub @ b"
    proof cases
      case 1
      then obtain b where "c # cs = sub @ b" using take_prefix_iff by blast
      then have "c # cs = [] @ sub @ b" by simp
      then show ?thesis by blast
    next
      case 2
      then obtain a b where "cs = a @ sub @ b" using Cons.IH by blast
      then have "c # cs = (c # a) @ sub @ b" by simp
      then show ?thesis by blast
    qed
  next
    assume "\<exists>a b. c # cs = a @ sub @ b"
    then obtain a b where ab: "c # cs = a @ sub @ b" by blast
    show "str_includes (c # cs) sub"
    proof (cases a)
      case Nil
      then have "take (length sub) (c # cs) = sub" using ab take_prefix_iff by auto
      then show ?thesis by simp
    next
      case (Cons x a')
      then have "cs = a' @ sub @ b" using ab by simp
      then have "str_includes cs sub" using Cons.IH by blast
      then show ?thesis by simp
    qed
  qed
qed

lemma direct_regex_test_iff:
  "direct_regex_test s \<longleftrightarrow> (\<exists>e\<in>set direct_exts. \<exists>stem. toLowerCase s = stem @ ''.'' @ e)"
  by (simp add: direct_regex_test_def list_ex_iff endsWith_iff)

lemma toLowerCase_idem: "toLowerCase (toLowerCase s) = toLowerCase s"
proof -
  have "to_lower_char (to_lower_char c) = to_lower_char c" for c
    by (simp add: to_lower_char_def split: option.splits if_splits)
  then show ?thesis by (simp add: toLowerCase_def)
qed

section \<open>Routing\<close>

text \<open>
  C4, as stated, fails: the host \<^verbatim>\<open>notspotify.com.example.org\<close> is neither
  \<^verbatim>\<open>spotify.com\<close> nor one of its subdomains, so the stated precedence sends the URL to
  the generic adapter, but the code tests \<^verbatim>\<open>host.includes("spotify.com")\<close> and sends
  it to the music-service adapter.
\<close>

theorem route_domain_counterexample:
  "parse_url demo_cfg ''https://notspotify.com.example.org/watch''
     = Some \<lparr>protocol = ''https:'', hostname = ''notspotify.com.example.org'', pathname = ''/watch''\<rparr>
   \<and> route demo_cfg ''https://notspotify.com.example.org/watch'' = Inr Spotdl
   \<and> claimed_route \<lparr>protocol = ''https:'', hostname = ''notspotify.com.example.org'', pathname = ''/watch''\<rparr> = YtDlp"
  by (simp add: demo_cfg_def demo_parse_def route_def classify_def direct_regex_test_def
      direct_exts_def endsWith_def toLowerCase_def to_lower_char_def claimed_route_def
      belongs_to_domain_def)

text \<open>
  C4, amended: for every URL the parser accepts, the router takes the first match of:
  the lower-cased path ends in a dot and a direct-download extension (direct-file
  adapter); the lower-cased path ends in \<^verbatim>\<open>.m3u8\<close> (streaming-manifest adapter); the
  lower-cased host name contains \<^verbatim>\<open>spotify.com\<close> as a substring (music-service
  adapter); otherwise the generic adapter. Every host that belongs to the domain
  \<^verbatim>\<open>spotify.com\<close> contains that substring. The result is a function of the
  configuration and the URL alone.
\<close>

theorem route_precedence:
  assumes "parse_url cfg u = Some p"
  shows "route cfg u = Inr
           (if (\<exists>e\<in>set direct_exts. \<exists>stem. toLowerCase (pathname p) = stem @ ''.'' @ e) then Aria2c
            else if (\<exists>stem. toLowerCase (pathname p) = stem @ ''.m3u8'') then Ffmpeg
            else if (\<exists>a b. toLowerCase (hostname p) = a @ ''spotify.com'' @ b) then Spotdl
            else YtDlp)
         \<and> (belongs_to_domain (toLowerCase (hostname p)) ''spotify.com''
              \<longrightarrow> (\<exists>a b. toLowerCase (hostname p) = a @ ''spotify.com'' @ b))"
proof -
  have d: "direct_regex_test (toLowerCase (pathname p))
             \<longleftrightarrow> (\<exists>e\<in>set direct_exts. \<exists>stem. toLowerCase (pathname p) = stem @ ''.'' @ e)"
    by (simp add: direct_regex_test_iff toLowerCase_idem)
  have m: "endsWith (toLowerCase (pathname p)) ''.m3u8''
             \<longleftrightarrow> (\<exists>stem. toLowerCase (pathname p) = stem @ ''.m3u8'')"
    by (rule endsWith_iff)
  have h: "str_includes (toLowerCase (hostname p)) ''spotify.com''
             \<longleftrightarrow> (\<exists>a b. toLowerCase (hostname p) = a @ ''spotify.com'' @ b)"
    by (rule str_includes_iff)
  have r: "route cfg u = Inr
           (if direct_regex_test (toLowerCase (pathname p)) then Aria2c
            else if endsWith (toLowerCase (pathname p)) ''.m3u8'' then Ffmpeg
            else if str_includes (toLowerCase (hostname p)) ''spotify.com'' then Spotdl
            else YtDlp)"
    using assms by (simp add: route_def classify_def Let_def)
  have b: "belongs_to_domain (toLowerCase (hostname p)) ''spotify.com''
              \<longrightarrow> (\<exists>a b. toLowerCase (hostname p) = a @ ''spotify.com'' @ b)"
  proof
    assume "belongs_to_domain (toLowerCase (hostname p)) ''spotify.com''"
    then consider "toLowerCase (hostname p) = ''spotify.com''"
      | stem where "toLowerCase (hostname p) = stem @ ''.spotify.com''"
      unfolding belongs_to_domain_def endsWith_iff by auto
    then show "\<exists>a b. toLowerCase (hostname p) = a @ ''spotify.com'' @ b"
    proof cases
      case 1
      then have "toLowerCase (hostname p) = [] @ ''spotify.com'' @ []" by simp
      then show ?thesis by blast
    next
      case 2
      then have "toLowerCase (hostname p) = (stem @ ''.'') @ ''spotify.com'' @ []" by simp
      then show ?thesis by blast
    qed
  qed
  show ?thesis unfolding r d m h using b by simp
qed

text \<open>C4, witness: a direct-download URL and a playlist URL of the music service.\<close>

theorem route_precedence_witness:
  "route demo_cfg ''https://example.com/video.mp4'' = Inr Aria2c
   \<and> belongs_to_domain (toLowerCase ''open.spotify.com'') ''spotify.com''
   \<and> route demo_cfg ''https://open.spotify.com/playlist/abc'' = Inr Spotdl"
proof -
  have p1: "parse_url demo_cfg ''https://example.com/video.mp4''
      = Some \<lparr>protocol = ''https:'', hostname = ''example.com'', pathname = ''/video.mp4''\<rparr>"
    by (simp add: demo_cfg_def demo_parse_def)
  have p3: "parse_url demo_cfg ''https://open.spotify.com/playlist/abc''
      = Some \<lparr>protocol = ''https:'', hostname = ''open.spotify.com'', pathname = ''/playlist/abc''\<rparr>"
    by (simp add: demo_cfg_def demo_parse_def)
  have lc: "toLowerCase ''/video.mp4'' = ''/video.mp4''"
      "toLowerCase ''/playlist/abc'' = ''/playlist/abc''"
      "toLowerCase ''open.spotify.com'' = ''open.spotify.com''"
    by (simp_all add: toLowerCase_def to_lower_char_def)
  have c1: "\<exists>e\<in>set direct_exts. \<exists>stem. ''/video.mp4'' = stem @ ''.'' @ e"
    using direct_regex_test_iff [of "''/video.mp4''"]
    by (simp add: lc direct_regex_test_def direct_exts_def endsWith_def)
  have c2: "\<not> (\<exists>e\<in>set direct_exts. \<exists>stem. ''/playlist/abc'' = stem @ ''.'' @ e)"
    using direct_regex_test_iff [of "''/playlist/abc''"]
    by (simp add: lc direct_regex_test_def direct_exts_def endsWith_def)
  have c3: "\<not> (\<exists>stem. ''/playlist/abc'' = stem @ ''.m3u8'')"
    using endsWith_iff [of "''/playlist/abc''" "''.m3u8''"] by (simp add: endsWith_def)
  have b: "belongs_to_domain (toLowerCase ''open.spotify.com'') ''spotify.com''"
    by (simp add: lc belongs_to_domain_def endsWith_def)
  have c4: "\<exists>a b. ''open.spotify.com'' = a @ ''spotify.com'' @ b"
    using route_precedence [OF p3, THEN conjunct2] b by (simp add: lc)
  have r1: "route demo_cfg ''https://example.com/video.mp4'' = Inr Aria2c"
    using route_precedence [OF p1] c1 by (simp add: lc)
  have r3: "route demo_cfg ''https://open.spotify.com/playlist/abc'' = Inr Spotdl"
    using route_precedence [OF p3] c2 c3 c4 by (simp add: lc)
  show ?thesis using r1 r3 b by simp
qed

section \<open>The routes\<close>

lemma map_of_update: "map_of (AList.update k v al) k = Some v"
  by (simp add: update_conv')

text \<open>
  C7: for every submission whose URL is invalid (empty, malformed, or with a scheme other
  than http/https) the create-job endpoint responds 400 with an error message and leaves
  the state as it was: no record is created and nothing is enqueued. For every valid
  submission it responds with the new id and the status \<^verbatim>\<open>queued\<close>, stores a record
  with status \<open>Queued\<close> under that id, and appends the id to the queue.
\<close>

theorem post_jobs_validation:
  "(invalid_url cfg (submitted_url body_url) \<longrightarrow>
      post_jobs cfg body_url nid s = (Status400 ''URL tidak valid.'', s))
   \<and> (\<not> invalid_url cfg (submitted_url body_url) \<longrightarrow>
        fst (post_jobs cfg body_url nid s) = Created nid ''queued''
        \<and> map_of (jobs (snd (post_jobs cfg body_url nid s))) nid =
            Some \<lparr> job_id = nid, url = submitted_url body_url, status = Queued,
                   created_at = clock s, updated_at = clock s, file_path = None,
                   file_name = None, error = None, log = [] \<rparr>
        \<and> queue (snd (post_jobs cfg body_url nid s)) = queue s @ [nid]
        \<and> immediates (snd (post_jobs cfg body_url nid s)) = Suc (immediates s))"
proof -
  have v: "invalid_url cfg u \<longleftrightarrow> (u = [] \<or> \<not> isValidUrl cfg u)" for u
    by (auto simp: invalid_url_def isValidUrl_def split: option.splits)
  show ?thesis
    by (simp add: v post_jobs_def submitted_url_def Let_def map_of_update)
qed

text \<open>C7, witness: an \<^verbatim>\<open>ftp\<close> URL and an absent URL are rejected; an \<^verbatim>\<open>https\<close> URL
  is accepted, padded with spaces or with no-break spaces.\<close>

theorem post_jobs_validation_witness:
  "post_jobs demo_cfg (Some ''ftp://example.com/a.zip'') ''A'' (init demo_fs)
     = (Status400 ''URL tidak valid.'', init demo_fs)
   \<and> post_jobs demo_cfg None ''A'' (init demo_fs) = (Status400 ''URL tidak valid.'', init demo_fs)
   \<and> fst (post_jobs demo_cfg (Some '' https://example.com/video.mp4 '') ''A'' (init demo_fs))
       = Created ''A'' ''queued''
   \<and> map_of (jobs (snd (post_jobs demo_cfg (Some '' https://example.com/video.mp4 '') ''A'' (init demo_fs)))) ''A''
       = Some \<lparr> job_id = ''A'', url = ''https://example.com/video.mp4'', status = Queued,
                created_at = 0, updated_at = 0, file_path = None,
                file_name = None, error = None, log = [] \<rparr>
   \<and> queue (snd (post_jobs demo_cfg (Some '' https://example.com/video.mp4 '') ''A'' (init demo_fs)))
       = [''A'']
   \<and> fst (post_jobs demo_cfg (Some (CHR 0xA0 # ''https://example.com/video.mp4'' @ [CHR 0xA0])) ''A''
           (init demo_fs))
       = Created ''A'' ''queued''
   \<and> queue (snd (post_jobs demo_cfg
           (Some (CHR 0xA0 # ''https://example.com/video.mp4'' @ [CHR 0xA0])) ''A'' (init demo_fs)))
       = [''A'']"
proof -
  have t1: "submitted_url (Some ''ftp://example.com/a.zip'') = ''ftp://example.com/a.zip''"
    by (simp add: submitted_url_def trim_def is_space_def)
  have t2: "submitted_url None = []"
    by (simp add: submitted_url_def trim_def)
  have t3: "submitted_url (Some '' https://example.com/video.mp4 '') = ''https://example.com/video.mp4''"
    by (simp add: submitted_url_def trim_def is_space_def)
  have t4: "submitted_url (Some (CHR 0xA0 # ''https://example.com/video.mp4'' @ [CHR 0xA0]))
      = ''https://example.com/video.mp4''"
    by (simp add: submitted_url_def trim_def is_space_def)
  have i1: "invalid_url demo_cfg (submitted_url (Some ''ftp://example.com/a.zip''))"
    by (simp add: t1 invalid_url_def demo_cfg_def demo_parse_def)
  have i2: "invalid_url demo_cfg (submitted_url None)"
    by (simp add: t2 invalid_url_def)
  have i3: "\<not> invalid_url demo_cfg (submitted_url (Some '' https://example.com/video.mp4 ''))"
    by (simp add: t3 invalid_url_def demo_cfg_def demo_parse_def)
  have i4: "\<not> invalid_url demo_cfg
      (submitted_url (Some (CHR 0xA0 # ''https://example.com/video.mp4'' @ [CHR 0xA0])))"
    by (simp only: t4) (simp add: invalid_url_def demo_cfg_def demo_parse_def)
  note a = post_jobs_validation [of demo_cfg "Some ''ftp://example.com/a.zip''" "''A''" "init demo_fs"]
  note b = post_jobs_validation [of demo_cfg None "''A''" "init demo_fs"]
  note c = post_jobs_validation [of demo_cfg "Some '' https://example.com/video.mp4 ''" "''A''" "init demo_fs"]
  note d = post_jobs_validation [of demo_cfg
      "Some (CHR 0xA0 # ''https://example.com/video.mp4'' @ [CHR 0xA0])" "''A''" "init demo_fs",
      THEN conjunct2, THEN mp, OF i4]
  have q: "queue (init demo_fs) = []" "clock (init demo_fs) = 0"
    by (simp_all add: init_def)
  have e: "fst (post_jobs demo_cfg (Some (CHR 0xA0 # ''https://example.com/video.mp4'' @ [CHR 0xA0])) ''A''
           (init demo_fs)) = Created ''A'' ''queued''"
    "queue (snd (post_jobs demo_cfg
           (Some (CHR 0xA0 # ''https://example.com/video.mp4'' @ [CHR 0xA0])) ''A'' (init demo_fs)))
       = [''A'']"
    using d by (simp_all only: q append_Nil)
  have f: "post_jobs demo_cfg (Some ''ftp://example.com/a.zip'') ''A'' (init demo_fs)
     = (Status400 ''URL tidak valid.'', init demo_fs)
   \<and> post_jobs demo_cfg None ''A'' (init demo_fs) = (Status400 ''URL tidak valid.'', init demo_fs)
   \<and> fst (post_jobs demo_cfg (Some '' https://example.com/video.mp4 '') ''A'' (init demo_fs))
       = Created ''A'' ''queued''
   \<and> map_of (jobs (snd (post_jobs demo_cfg (Some '' https://example.com/video.mp4 '') ''A'' (init demo_fs)))) ''A''
       = Some \<lparr> job_id = ''A'', url = ''https://example.com/video.mp4'', status = Queued,
                created_at = 0, updated_at = 0, file_path = None,
                file_name = None, error = None, log = [] \<rparr>
   \<and> queue (snd (post_jobs demo_cfg (Some '' https://example.com/video.mp4 '') ''A'' (init demo_fs)))
       = [''A'']"
    using a b c i1 i2 i3 by (simp add: t3 q)
  show ?thesis using f e by blast
qed

text \<open>
  C10: reading a job never changes the state. The get-job endpoint answers with a copy of
  the record whose log is cut to its last 8000 characters; the state after the request,
  and after any number of such requests, is the state before, so the stored record keeps
  its full log and every other field.
\<close>

theorem get_job_frame:
  "snd (get_job i s) = s
   \<and> run cfg (replicate n (Get i)) s = s
   \<and> fst (get_job i s) =
       (case map_of (jobs s) i of
          None \<Rightarrow> Status404 ''Job tidak ditemukan.''
        | Some j \<Rightarrow> JobJson (j\<lparr>log := drop (length (log j) - 8000) (log j)\<rparr>))"
proof -
  have a: "snd (get_job i s) = s" for s
    by (simp add: get_job_def split: option.splits)
  have b: "run cfg (replicate n (Get i)) s = s"
    by (induction n) (simp_all add: step_def a)
  show ?thesis
    by (simp add: a b) (simp add: get_job_def slice_last_def split: option.splits)
qed

section \<open>The job pipeline, step by step\<close>

lemmas pipeline_defs =
  on_settle_def on_data_def on_proc_error_def on_proc_close_def catch_block_def
  finally_block_def runDownload_def upload_items_def after_download_def setJob_def pushLog_def
  tgSendMessage_def tgSendFileChecked_def set_pc_def Let_def

lemma demo_started_eq:
  "demo_started =
     \<lparr> jobs = [(''A'', \<lparr> job_id = ''A'', url = demo_url, status = Downloading, created_at = 0,
                          updated_at = 0, file_path = None, file_name = None, error = None,
                          log = [] \<rparr>)],
       running = 1, queue = [],
       tasks = [\<lparr>tid = ''A'', turl = demo_url, pc = AwaitStart\<rparr>],
       immediates = 0, timers = [], disk = demo_fs,
       outbox = [SendMessage (start_text ''A'' demo_url)], clock = 0 \<rparr>"
  by (simp add: demo_started_def step_def post_jobs_def processQueue_def pipeline_defs init_def
      demo_cfg_def demo_parse_def demo_url_def isValidUrl_def trim_def is_space_def)

text \<open>
  C1, as stated, fails. A job is submitted and admitted, so it is \<open>Downloading\<close> and its
  "starting" notification is pending. The notifier rejects that call: the job enters
  \<open>Error\<close> with the notifier's message, the only further call is the failure
  notification, and when the pipeline has finished no subprocess has been spawned.
\<close>

theorem start_notification_failure_counterexample:
  "map (\<lambda>(k, j). (k, status j, error j)) (jobs demo_started) = [(''A'', Downloading, None)]
   \<and> map (\<lambda>(k, j). (k, status j, error j)) (jobs (step demo_cfg (Settle 0 (Inl tg_down)) demo_started))
       = [(''A'', Error, Some ''TG sendMessage failed: 502 Bad Gateway'')]
   \<and> outbox (step demo_cfg (Settle 0 (Inl tg_down)) demo_started)
       = [SendMessage (start_text ''A'' demo_url), SendMessage (fail_text ''A'' tg_down)]
   \<and> tasks (run demo_cfg [Settle 0 (Inl tg_down), Settle 0 (Inr ())] demo_started) = []
   \<and> outbox (run demo_cfg [Settle 0 (Inl tg_down), Settle 0 (Inr ())] demo_started)
       = [SendMessage (start_text ''A'' demo_url), SendMessage (fail_text ''A'' tg_down)]
   \<and> map (\<lambda>(k, j). (k, status j)) (jobs (run demo_cfg [Settle 0 (Inl tg_down), Settle 0 (Inr ())] demo_started))
       = [(''A'', Error)]"
  by (simp add: demo_started_eq step_def pipeline_defs tg_down_def new_Error_def catch_text_def)

text \<open>
  C1, amended: the "starting" notification is awaited inside the pipeline's
  \<^verbatim>\<open>try\<close> block, so its failure aborts the job. If the send-message call fails after
  the job entered \<open>Downloading\<close>, the job enters \<open>Error\<close> with the failure's message, the
  failure notification is sent and no engine adapter is run; if the call succeeds, the
  job record is left as it is and the adapter the router chooses is spawned.
\<close>

theorem start_notification_failure_aborts:
  assumes "n < length (tasks s)"
    and "pc (tasks s ! n) = AwaitStart"
    and "map_of (jobs s) (tid (tasks s ! n)) = Some j"
  shows "map_of (jobs (step cfg (Settle n (Inl e)) s)) (tid (tasks s ! n))
           = Some (j\<lparr>status := Error, error := Some (catch_text e), updated_at := clock s\<rparr>)
       \<and> outbox (step cfg (Settle n (Inl e)) s)
           = outbox s @ [SendMessage (fail_text (tid (tasks s ! n)) e)]
       \<and> pc (tasks (step cfg (Settle n (Inl e)) s) ! n) = AwaitFailMsg
       \<and> (route cfg (turl (tasks s ! n)) = Inr g \<longrightarrow>
            jobs (step cfg (Settle n (Inr ())) s) = jobs s
            \<and> outbox (step cfg (Settle n (Inr ())) s)
                = outbox s @ [Spawn g (tid (tasks s ! n)) (turl (tasks s ! n))]
            \<and> pc (tasks (step cfg (Settle n (Inr ())) s) ! n) = AwaitDownload g [] [])"
  using assms by (simp add: step_def pipeline_defs map_of_update)

text \<open>C1, witness: the admitted job of the counterexample, with the notification failing
  and with it succeeding.\<close>

theorem start_notification_failure_aborts_witness:
  "map_of (jobs (step demo_cfg (Settle 0 (Inl tg_down)) demo_started)) ''A''
     = Some \<lparr> job_id = ''A'', url = demo_url, status = Error, created_at = 0,
              updated_at = 0, file_path = None, file_name = None,
              error = Some ''TG sendMessage failed: 502 Bad Gateway'', log = [] \<rparr>
   \<and> pc (tasks (step demo_cfg (Settle 0 (Inl tg_down)) demo_started) ! 0) = AwaitFailMsg
   \<and> outbox (step demo_cfg (Settle 0 (Inr ())) demo_started)
       = [SendMessage (start_text ''A'' demo_url), Spawn Aria2c ''A'' demo_url]
   \<and> pc (tasks (step demo_cfg (Settle 0 (Inr ())) demo_started) ! 0) = AwaitDownload Aria2c [] []"
proof -
  have a: "0 < length (tasks demo_started)" "pc (tasks demo_started ! 0) = AwaitStart"
    "tid (tasks demo_started ! 0) = ''A''" "turl (tasks demo_started ! 0) = demo_url"
    "outbox demo_started = [SendMessage (start_text ''A'' demo_url)]" "clock demo_started = 0"
    by (simp_all add: demo_started_eq)
  have b: "map_of (jobs demo_started) (tid (tasks demo_started ! 0))
     = Some \<lparr> job_id = ''A'', url = demo_url, status = Downloading, created_at = 0,
                          updated_at = 0, file_path = None, file_name = None, error = None,
                          log = [] \<rparr>"
    by (simp add: demo_started_eq)
  have r: "route demo_cfg (turl (tasks demo_started ! 0)) = Inr Aria2c"
    by (simp add: a demo_url_def demo_cfg_def demo_parse_def route_def classify_def
        direct_regex_test_def direct_exts_def endsWith_def toLowerCase_def to_lower_char_def)
  show ?thesis
    using start_notification_failure_aborts [OF a(1) a(2) b, of demo_cfg tg_down Aria2c] r
    by (simp add: a tg_down_def new_Error_def catch_text_def)
qed

section \<open>Engine failures\<close>

lemma str_includes_mid: "str_includes (a @ b @ c) b"
  using str_includes_iff by blast

lemma on_close_nonzero:
  assumes "c \<noteq> 0"
  shows "\<exists>m. on_close cfg g i (Some c) fp err d = Inl (new_Error m)
            \<and> m \<noteq> [] \<and> str_includes m (show_int c)"
proof (cases g)
  case Aria2c
  let ?m = "''aria2c exit code '' @ show_int c @ (''. '' @ slice_last 400 err)"
  have 1: "on_close cfg g i (Some c) fp err d = Inl (new_Error ?m)"
    using assms Aria2c by (simp add: on_close_def show_code_def)
  have 2: "?m \<noteq> []" by simp
  have 3: "str_includes ?m (show_int c)" by (rule str_includes_mid)
  show ?thesis by (rule exI [of _ ?m]) (intro conjI 1 2 3)
next
  case Ffmpeg
  let ?m = "''ffmpeg exit code '' @ show_int c @ []"
  have 1: "on_close cfg g i (Some c) fp err d = Inl (new_Error ?m)"
    using assms Ffmpeg by (simp add: on_close_def show_code_def)
  have 2: "?m \<noteq> []" by simp
  have 3: "str_includes ?m (show_int c)" by (rule str_includes_mid)
  show ?thesis by (rule exI [of _ ?m]) (intro conjI 1 2 3)
next
  case Spotdl
  let ?m = "''spotdl exit code '' @ show_int c @ (''. '' @ slice_last 400 err)"
  have 1: "on_close cfg g i (Some c) fp err d = Inl (new_Error ?m)"
    using assms Spotdl by (simp add: on_close_def show_code_def)
  have 2: "?m \<noteq> []" by simp
  have 3: "str_includes ?m (show_int c)" by (rule str_includes_mid)
  show ?thesis by (rule exI [of _ ?m]) (intro conjI 1 2 3)
next
  case YtDlp
  let ?m = "''yt-dlp exit code '' @ show_int c @ (''. '' @ slice_last 400 err)"
  have 1: "on_close cfg g i (Some c) fp err d = Inl (new_Error ?m)"
    using assms YtDlp by (simp add: on_close_def show_code_def)
  have 2: "?m \<noteq> []" by simp
  have 3: "str_includes ?m (show_int c)" by (rule str_includes_mid)
  show ?thesis by (rule exI [of _ ?m]) (intro conjI 1 2 3)
qed

lemma demo_downloading_eq:
  "demo_downloading =
     \<lparr> jobs = [(''A'', \<lparr> job_id = ''A'', url = demo_url, status = Downloading, created_at = 0,
                          updated_at = 0, file_path = None, file_name = None, error = None,
                          log = ''connection refused'' \<rparr>)],
       running = 1, queue = [],
       tasks = [\<lparr>tid = ''A'', turl = demo_url, pc = AwaitDownload Aria2c [] ''connection refused''\<rparr>],
       immediates = 0, timers = [], disk = demo_fs,
       outbox = [SendMessage (start_text ''A'' demo_url), Spawn Aria2c ''A'' demo_url], clock = 0 \<rparr>"
  by (simp add: demo_downloading_def demo_started_eq step_def pipeline_defs on_stderr_def
      demo_cfg_def demo_parse_def demo_url_def route_def classify_def
      direct_regex_test_def direct_exts_def endsWith_def toLowerCase_def to_lower_char_def)

text \<open>
  C8: when the subprocess of a job's engine adapter closes with a non-zero exit code while
  the pipeline awaits it, the job record gets the status \<open>Error\<close> and an error message
  that contains the decimal exit code, whichever adapter it is. The pipeline then only
  awaits the failure notification: however that settles, the job records stay as they
  are and the pipeline is gone, so the job ends in \<open>Error\<close>.
\<close>

theorem nonzero_exit_ends_in_error:
  assumes "n < length (tasks s)"
    and "pc (tasks s ! n) = AwaitDownload g fp err"
    and "map_of (jobs s) (tid (tasks s ! n)) = Some j"
    and "c \<noteq> 0"
  shows "\<exists>m. str_includes m (show_int c)
           \<and> map_of (jobs (step cfg (Close n (Some c)) s)) (tid (tasks s ! n))
               = Some (j\<lparr>status := Error, error := Some m, updated_at := clock s\<rparr>)
           \<and> pc (tasks (step cfg (Close n (Some c)) s) ! n) = AwaitFailMsg
           \<and> (\<forall>r. jobs (run cfg [Close n (Some c), Settle n r] s)
                     = jobs (step cfg (Close n (Some c)) s)
                  \<and> tasks (run cfg [Close n (Some c), Settle n r] s)
                     = take n (tasks s) @ drop (Suc n) (tasks s))"
proof -
  obtain m where m: "on_close cfg g (tid (tasks s ! n)) (Some c) fp err (disk s) = Inl (new_Error m)"
    "m \<noteq> []" "str_includes m (show_int c)"
    using on_close_nonzero [OF assms(4)] by blast
  have ct: "catch_text (new_Error m) = m"
    using m(2) by (simp add: catch_text_def new_Error_def)
  let ?s' = "step cfg (Close n (Some c)) s"
  have s': "?s' = catch_block n (new_Error m) s"
    using assms(1,2) m(1) by (simp add: step_def on_proc_close_def Let_def)
  have j': "map_of (jobs ?s') (tid (tasks s ! n))
               = Some (j\<lparr>status := Error, error := Some m, updated_at := clock s\<rparr>)"
    using assms(1,3) by (simp add: s' ct catch_block_def setJob_def tgSendMessage_def set_pc_def
        Let_def map_of_update)
  have p': "pc (tasks ?s' ! n) = AwaitFailMsg" "length (tasks ?s') = length (tasks s)"
    using assms(1,3) by (simp_all add: s' catch_block_def setJob_def tgSendMessage_def set_pc_def Let_def)
  have t': "take n (tasks ?s') = take n (tasks s)" "drop (Suc n) (tasks ?s') = drop (Suc n) (tasks s)"
    using assms(1,3) by (simp_all add: s' catch_block_def setJob_def tgSendMessage_def set_pc_def Let_def)
  have fin: "jobs (step cfg (Settle n r) ?s') = jobs ?s'
       \<and> tasks (step cfg (Settle n r) ?s') = take n (tasks s) @ drop (Suc n) (tasks s)" for r
    using assms(1) p' t' by (simp add: step_def on_settle_def finally_block_def Let_def)
  show ?thesis
    using m(3) j' p'(1) fin by auto
qed

text \<open>C8, witness: the direct-file adapter's subprocess exits with code 3.\<close>

theorem nonzero_exit_ends_in_error_witness:
  "(3::int) \<noteq> 0
   \<and> (\<exists>m. str_includes m (show_int 3)
         \<and> map (\<lambda>(k, j). (k, status j, error j)) (jobs (step demo_cfg (Close 0 (Some 3)) demo_downloading))
             = [(''A'', Error, Some m)])
   \<and> map (\<lambda>(k, j). (k, status j, error j)) (jobs (step demo_cfg (Close 0 (Some 3)) demo_downloading))
             = [(''A'', Error, Some ''aria2c exit code 3. connection refused'')]"
proof -
  have a: "0 < length (tasks demo_downloading)"
    "pc (tasks demo_downloading ! 0) = AwaitDownload Aria2c [] ''connection refused''"
    "tid (tasks demo_downloading ! 0) = ''A''"
    by (simp_all add: demo_downloading_eq)
  have b: "map_of (jobs demo_downloading) (tid (tasks demo_downloading ! 0))
     = Some \<lparr> job_id = ''A'', url = demo_url, status = Downloading, created_at = 0,
                          updated_at = 0, file_path = None, file_name = None, error = None,
                          log = ''connection refused'' \<rparr>"
    by (simp add: demo_downloading_eq)
  have c: "(3::int) \<noteq> 0" by simp
  have sh: "show_int 3 = ''3''" by code_simp
  have js: "jobs (step demo_cfg (Close 0 (Some 3)) demo_downloading)
      = [(''A'', \<lparr> job_id = ''A'', url = demo_url, status = Error, created_at = 0,
                          updated_at = 0, file_path = None, file_name = None,
                          error = Some ''aria2c exit code 3. connection refused'',
                          log = ''connection refused'' \<rparr>)]"
    by (simp add: demo_downloading_eq step_def pipeline_defs on_close_def show_code_def sh
        slice_last_def new_Error_def catch_text_def)
  from nonzero_exit_ends_in_error [OF a(1) a(2) b c, of demo_cfg]
  obtain m where "str_includes m (show_int 3)"
    "map_of (jobs (step demo_cfg (Close 0 (Some 3)) demo_downloading)) ''A''
       = Some (\<lparr> job_id = ''A'', url = demo_url, status = Error, created_at = 0,
                          updated_at = 0, file_path = None, file_name = None, error = Some m,
                          log = ''connection refused'' \<rparr>)"
    by (auto simp: a demo_downloading_eq)
  then have "str_includes m (show_int 3)
         \<and> map (\<lambda>(k, j). (k, status j, error j)) (jobs (step demo_cfg (Close 0 (Some 3)) demo_downloading))
             = [(''A'', Error, Some m)]"
    by (simp add: js)
  then show ?thesis using js by auto
qed

section \<open>What each operation leaves unchanged\<close>

lemma setJob_frame [simp]:
  shows "running (setJob i f s) = running s"
    "queue (setJob i f s) = queue s"
    "tasks (setJob i f s) = tasks s"
    "immediates (setJob i f s) = immediates s"
    "timers (setJob i f s) = timers s"
    "disk (setJob i f s) = disk s"
    "outbox (setJob i f s) = outbox s"
    "clock (setJob i f s) = clock s"
  by (simp_all add: setJob_def Let_def split: option.splits)

lemma pushLog_frame [simp]:
  shows "running (pushLog i txt s) = running s"
    "queue (pushLog i txt s) = queue s"
    "tasks (pushLog i txt s) = tasks s"
    "immediates (pushLog i txt s) = immediates s"
    "timers (pushLog i txt s) = timers s"
    "disk (pushLog i txt s) = disk s"
    "outbox (pushLog i txt s) = outbox s"
    "clock (pushLog i txt s) = clock s"
  by (simp_all add: pushLog_def Let_def split: option.splits)

lemma tgSendMessage_frame [simp]:
  shows "jobs (tgSendMessage txt s) = jobs s"
    "running (tgSendMessage txt s) = running s"
    "queue (tgSendMessage txt s) = queue s"
    "tasks (tgSendMessage txt s) = tasks s"
    "immediates (tgSendMessage txt s) = immediates s"
    "timers (tgSendMessage txt s) = timers s"
    "disk (tgSendMessage txt s) = disk s"
    "clock (tgSendMessage txt s) = clock s"
  by (simp_all add: tgSendMessage_def Let_def)

lemma tgSendFileChecked_frame [simp]:
  shows "jobs (tgSendFileChecked fp cap s) = jobs s"
    "running (tgSendFileChecked fp cap s) = running s"
    "queue (tgSendFileChecked fp cap s) = queue s"
    "tasks (tgSendFileChecked fp cap s) = tasks s"
    "immediates (tgSendFileChecked fp cap s) = immediates s"
    "timers (tgSendFileChecked fp cap s) = timers s"
    "disk (tgSendFileChecked fp cap s) = disk s"
    "clock (tgSendFileChecked fp cap s) = clock s"
  by (simp_all add: tgSendFileChecked_def Let_def)

lemma set_pc_frame [simp]:
  shows "jobs (set_pc n p s) = jobs s"
    "running (set_pc n p s) = running s"
    "queue (set_pc n p s) = queue s"
    "immediates (set_pc n p s) = immediates s"
    "timers (set_pc n p s) = timers s"
    "disk (set_pc n p s) = disk s"
    "outbox (set_pc n p s) = outbox s"
    "clock (set_pc n p s) = clock s"
  by (simp_all add: set_pc_def Let_def)

lemma catch_block_frame [simp]:
  shows "running (catch_block n e s) = running s"
    "queue (catch_block n e s) = queue s"
    "immediates (catch_block n e s) = immediates s"
    "timers (catch_block n e s) = timers s"
    "disk (catch_block n e s) = disk s"
    "clock (catch_block n e s) = clock s"
  by (simp_all add: catch_block_def Let_def)

lemma finally_block_frame [simp]:
  shows "jobs (finally_block n s) = jobs s"
    "queue (finally_block n s) = queue s"
    "timers (finally_block n s) = timers s"
    "disk (finally_block n s) = disk s"
    "outbox (finally_block n s) = outbox s"
    "clock (finally_block n s) = clock s"
  by (simp_all add: finally_block_def Let_def)

lemma upload_items_frame [simp]:
  shows "running (upload_items n fls sent rest s) = running s"
    "queue (upload_items n fls sent rest s) = queue s"
    "immediates (upload_items n fls sent rest s) = immediates s"
    "timers (upload_items n fls sent rest s) = timers s"
    "disk (upload_items n fls sent rest s) = disk s"
    "clock (upload_items n fls sent rest s) = clock s"
  by (simp_all add: upload_items_def Let_def split: list.splits)

lemma after_download_frame [simp]:
  shows "running (after_download n res s) = running s"
    "queue (after_download n res s) = queue s"
    "immediates (after_download n res s) = immediates s"
    "timers (after_download n res s) = timers s"
    "disk (after_download n res s) = disk s"
    "clock (after_download n res s) = clock s"
  by (simp_all add: after_download_def Let_def split: download_result.splits)

lemma runDownload_frame [simp]:
  shows "running (runDownload cfg n s) = running s"
    "queue (runDownload cfg n s) = queue s"
    "immediates (runDownload cfg n s) = immediates s"
    "timers (runDownload cfg n s) = timers s"
    "disk (runDownload cfg n s) = disk s"
    "clock (runDownload cfg n s) = clock s"
  by (simp_all add: runDownload_def Let_def split: sum.splits)

lemma cleanup_fire_frame [simp]:
  shows "jobs (cleanup_fire i s) = jobs s"
    "running (cleanup_fire i s) = running s"
    "queue (cleanup_fire i s) = queue s"
    "tasks (cleanup_fire i s) = tasks s"
    "immediates (cleanup_fire i s) = immediates s"
    "timers (cleanup_fire i s) = timers s"
    "outbox (cleanup_fire i s) = outbox s"
    "clock (cleanup_fire i s) = clock s"
  by (simp_all add: cleanup_fire_def Let_def split: option.splits)

lemma processQueue_frame [simp]:
  shows "immediates (processQueue cfg s) = immediates s"
    "timers (processQueue cfg s) = timers s"
    "disk (processQueue cfg s) = disk s"
    "clock (processQueue cfg s) = clock s"
  by (simp_all add: processQueue_def Let_def split: list.splits option.splits)

lemma set_pc_length [simp]: "length (tasks (set_pc n p s)) = length (tasks s)"
  by (simp add: set_pc_def)

lemma set_pc_nth_same [simp]: "n < length (tasks s) \<Longrightarrow> pc (tasks (set_pc n p s) ! n) = p"
  by (simp add: set_pc_def)

lemma set_pc_nth_other [simp]: "m \<noteq> n \<Longrightarrow> tasks (set_pc n p s) ! m = tasks s ! m"
  by (simp add: set_pc_def)

lemma set_pc_nth_tid [simp]: "tid (tasks (set_pc n p s) ! m) = tid (tasks s ! m)"
proof (cases "n < length (tasks s)")
  case True
  then show ?thesis by (simp add: set_pc_def nth_list_update)
next
  case False
  then show ?thesis by (simp add: set_pc_def list_update_beyond)
qed

lemma set_pc_nth_turl [simp]: "turl (tasks (set_pc n p s) ! m) = turl (tasks s ! m)"
proof (cases "n < length (tasks s)")
  case True
  then show ?thesis by (simp add: set_pc_def nth_list_update)
next
  case False
  then show ?thesis by (simp add: set_pc_def list_update_beyond)
qed

lemma set_pc_tids [simp]: "map tid (tasks (set_pc n p s)) = map tid (tasks s)"
proof (rule nth_equalityI)
  show "length (map tid (tasks (set_pc n p s))) = length (map tid (tasks s))" by simp
next
  fix i assume "i < length (map tid (tasks (set_pc n p s)))"
  then have "i < length (tasks s)" by simp
  then show "map tid (tasks (set_pc n p s)) ! i = map tid (tasks s) ! i" by simp
qed

lemma on_data_frame [simp]:
  shows "running (on_data cfg b n chunk s) = running s"
    "queue (on_data cfg b n chunk s) = queue s"
    "immediates (on_data cfg b n chunk s) = immediates s"
    "timers (on_data cfg b n chunk s) = timers s"
    "disk (on_data cfg b n chunk s) = disk s"
    "outbox (on_data cfg b n chunk s) = outbox s"
    "clock (on_data cfg b n chunk s) = clock s"
  by (cases "pc (tasks s ! n)"; simp add: on_data_def Let_def)+

lemma on_proc_error_frame [simp]:
  shows "running (on_proc_error n e s) = running s"
    "queue (on_proc_error n e s) = queue s"
    "immediates (on_proc_error n e s) = immediates s"
    "timers (on_proc_error n e s) = timers s"
    "disk (on_proc_error n e s) = disk s"
    "clock (on_proc_error n e s) = clock s"
  by (cases "pc (tasks s ! n)"; simp add: on_proc_error_def)+

lemma on_proc_close_frame [simp]:
  shows "running (on_proc_close cfg n code s) = running s"
    "queue (on_proc_close cfg n code s) = queue s"
    "immediates (on_proc_close cfg n code s) = immediates s"
    "timers (on_proc_close cfg n code s) = timers s"
    "disk (on_proc_close cfg n code s) = disk s"
    "clock (on_proc_close cfg n code s) = clock s"
  by (cases "pc (tasks s ! n)"; simp add: on_proc_close_def Let_def split: sum.splits)+

section \<open>The cleanup timer\<close>









lemma demo_route: "route demo_cfg demo_url = Inr Aria2c"
  by (simp add: demo_url_def demo_cfg_def demo_parse_def route_def classify_def
        direct_regex_test_def direct_exts_def endsWith_def toLowerCase_def to_lower_char_def)

lemma demo_single_uploading_eq:
  "demo_single_uploading =
     \<lparr> jobs = [(''A'', demo_job)],
       running = 1, queue = [],
       tasks = [\<lparr>tid = ''A'', turl = demo_url, pc = AwaitSingleUpload demo_file\<rparr>],
       immediates = 0, timers = [], disk = \<lparr>files = [demo_file], undeletable = []\<rparr>,
       outbox = [SendMessage (start_text ''A'' demo_url), Spawn Aria2c ''A'' demo_url,
                 SendFile demo_file (single_caption ''A'' ''video.mp4'' demo_url)], clock = 0 \<rparr>"
proof -
  have r: "readdir_files \<lparr>files = [demo_file], undeletable = []\<rparr> (job_dir demo_cfg ''A'') = [demo_file]"
    by (simp add: readdir_files_def job_dir_def path_join_def demo_cfg_def demo_file_def)
  have b: "basename demo_file = ''video.mp4''"
    by (simp add: basename_def demo_file_def)
  show ?thesis
    by (simp add: demo_single_uploading_def demo_started_eq step_def pipeline_defs demo_route
        demo_fs_def on_close_def r b demo_job_def)
qed

lemma demo_single_done_eq:
  "demo_single_done =
     \<lparr> jobs = [(''A'', demo_job\<lparr>status := Done\<rparr>)],
       running = 1, queue = [],
       tasks = [\<lparr>tid = ''A'', turl = demo_url, pc = AwaitSingleDone\<rparr>],
       immediates = 0, timers = [], disk = \<lparr>files = [demo_file], undeletable = []\<rparr>,
       outbox = [SendMessage (start_text ''A'' demo_url), Spawn Aria2c ''A'' demo_url,
                 SendFile demo_file (single_caption ''A'' ''video.mp4'' demo_url),
                 SendMessage (single_done_text ''A'')], clock = 0 \<rparr>"
  by (simp add: demo_single_done_def demo_single_uploading_eq step_def pipeline_defs demo_job_def)





section \<open>What an adapter's failure carries\<close>

lemma exit_failure_carries_stderr_tail:
  assumes "c \<noteq> 0"
  shows "on_close cfg YtDlp i (Some c) fp err d
           = Inl (new_Error (''yt-dlp exit code '' @ show_int c @ ''. '' @ slice_last 400 err))"
    and "on_close cfg Aria2c i (Some c) fp err d
           = Inl (new_Error (''aria2c exit code '' @ show_int c @ ''. '' @ slice_last 400 err))"
    and "on_close cfg Spotdl i (Some c) fp err d
           = Inl (new_Error (''spotdl exit code '' @ show_int c @ ''. '' @ slice_last 400 err))"
  using assms by (simp_all add: on_close_def show_code_def)

lemma stderr_is_captured:
  "g \<noteq> Ffmpeg \<Longrightarrow> on_stderr g chunk err = err @ chunk"
  by (cases g) (simp_all add: on_stderr_def)

text \<open>
  C6, at a failing input: the streaming-manifest adapter's subprocess writes
  \<^verbatim>\<open>Server returned 403 Forbidden\<close> to standard error and exits with code 1. The
  adapter keeps no copy of standard error and rejects with \<^verbatim>\<open>ffmpeg exit code 1\<close>;
  the generic adapter, at the same input, rejects with the exit code followed by the
  text. The \<^verbatim>\<open>runYtDlp\<close> of \<^verbatim>\<open>server.js\<close> reports the output path in place of
  standard error.
\<close>

theorem ffmpeg_failure_drops_stderr:
  "on_stderr Ffmpeg ''Server returned 403 Forbidden'' [] = []
   \<and> on_close demo_cfg Ffmpeg ''A'' (Some 1) [] (on_stderr Ffmpeg ''Server returned 403 Forbidden'' []) demo_fs
       = Inl (new_Error ''ffmpeg exit code 1'')
   \<and> on_close demo_cfg YtDlp ''A'' (Some 1) [] (on_stderr YtDlp ''Server returned 403 Forbidden'' []) demo_fs
       = Inl (new_Error ''yt-dlp exit code 1. Server returned 403 Forbidden'')
   \<and> runYtDlp_close (Some 1) [] demo_fs = Inl (new_Error ''yt-dlp exit code 1. finalPath=(none)'')"
proof -
  have sh: "show_int 1 = ''1''" by code_simp
  show ?thesis
    by (simp add: on_stderr_def on_close_def runYtDlp_close_def show_code_def sh slice_last_def
        existsSync_def demo_fs_def)
qed

section \<open>The concurrency ceiling\<close>

subsection \<open>Job records\<close>

lemma map_of_setJob:
  "map_of (jobs (setJob i f s)) k =
     (if k = i then map_option (\<lambda>cur. (f cur)\<lparr>updated_at := clock s\<rparr>) (map_of (jobs s) i)
      else map_of (jobs s) k)"
  by (cases "map_of (jobs s) i") (simp_all add: setJob_def update_conv')

lemma map_of_pushLog:
  "map_of (jobs (pushLog i txt s)) k =
     (if k = i then map_option (\<lambda>cur. cur\<lparr>log := log cur @ txt, updated_at := clock s\<rparr>) (map_of (jobs s) i)
      else map_of (jobs s) k)"
  by (cases "map_of (jobs s) i") (simp_all add: pushLog_def update_conv')

lemma keys_setJob [simp]: "map fst (jobs (setJob i f s)) = map fst (jobs s)"
proof (cases "map_of (jobs s) i")
  case None
  then show ?thesis by (simp add: setJob_def)
next
  case (Some cur)
  then have "i \<in> fst ` set (jobs s)" by (metis domI dom_map_of_conv_image_fst)
  then show ?thesis using Some by (simp add: setJob_def update_keys)
qed

lemma keys_pushLog [simp]: "map fst (jobs (pushLog i txt s)) = map fst (jobs s)"
proof (cases "map_of (jobs s) i")
  case None
  then show ?thesis by (simp add: pushLog_def)
next
  case (Some cur)
  then have "i \<in> fst ` set (jobs s)" by (metis domI dom_map_of_conv_image_fst)
  then show ?thesis using Some by (simp add: pushLog_def update_keys)
qed

lemma active_ids_setJob_subset: "active_ids (setJob i f s) \<subseteq> insert i (active_ids s)"
  by (auto simp: active_ids_def map_of_setJob split: if_splits)

lemma active_ids_setJob_terminal:
  assumes "\<And>j. \<not> active (status (f j))"
  shows "active_ids (setJob i f s) \<subseteq> active_ids s - {i}"
  using assms by (auto simp: active_ids_def map_of_setJob split: if_splits)

lemma active_ids_setJob_same:
  assumes "\<And>j. status (f j) = status j"
  shows "active_ids (setJob i f s) = active_ids s"
  using assms by (auto simp: active_ids_def map_of_setJob split: if_splits)

lemma active_ids_pushLog [simp]: "active_ids (pushLog i txt s) = active_ids s"
  by (auto simp: active_ids_def map_of_pushLog split: if_splits)

lemma active_ids_cong: "jobs s' = jobs s \<Longrightarrow> active_ids s' = active_ids s"
  by (simp add: active_ids_def)

lemma live_ids_cong: "tasks s' = tasks s \<Longrightarrow> live_ids s' = live_ids s"
  by (simp add: live_ids_def)

subsection \<open>Suspended calls\<close>

lemma live_ids_set_pc_stay:
  assumes "n < length (tasks s)" and "pre_terminal p"
  shows "insert (tid (tasks s ! n)) (live_ids s) \<subseteq> live_ids (set_pc n p s)"
proof
  fix k assume "k \<in> insert (tid (tasks s ! n)) (live_ids s)"
  then consider "k = tid (tasks s ! n)" | m where "m < length (tasks s)" "tid (tasks s ! m) = k"
      "pre_terminal (pc (tasks s ! m))" "m \<noteq> n"
    by (auto simp: live_ids_def in_set_conv_nth)
  then show "k \<in> live_ids (set_pc n p s)"
  proof cases
    case 1
    have "tasks (set_pc n p s) ! n \<in> set (tasks (set_pc n p s))"
      using assms(1) by simp
    moreover have "pre_terminal (pc (tasks (set_pc n p s) ! n))" using assms by simp
    moreover have "tid (tasks (set_pc n p s) ! n) = k" using 1 by simp
    ultimately show ?thesis unfolding live_ids_def by blast
  next
    case 2
    have "tasks (set_pc n p s) ! m \<in> set (tasks (set_pc n p s))"
      using 2(1) by simp
    moreover have "tasks (set_pc n p s) ! m = tasks s ! m" using 2(4) by simp
    ultimately show ?thesis unfolding live_ids_def using 2(2,3) by force
  qed
qed

lemma live_ids_set_pc_end:
  "live_ids s - {tid (tasks s ! n)} \<subseteq> live_ids (set_pc n p s)"
proof
  fix k assume "k \<in> live_ids s - {tid (tasks s ! n)}"
  then obtain m where m: "m < length (tasks s)" "tid (tasks s ! m) = k"
      "pre_terminal (pc (tasks s ! m))" "m \<noteq> n"
    by (auto simp: live_ids_def in_set_conv_nth)
  have "tasks (set_pc n p s) ! m \<in> set (tasks (set_pc n p s))"
    using m(1) by simp
  moreover have "tasks (set_pc n p s) ! m = tasks s ! m" using m(4) by simp
  ultimately show "k \<in> live_ids (set_pc n p s)" unfolding live_ids_def using m(2,3) by force
qed

lemma set_remove_nth:
  assumes "x \<in> set xs" and "x \<noteq> xs ! n"
  shows "x \<in> set (take n xs @ drop (Suc n) xs)"
proof -
  obtain m where m: "m < length xs" "xs ! m = x" using assms(1) by (auto simp: in_set_conv_nth)
  then have "m \<noteq> n" using assms(2) by auto
  then consider "m < n" | "n < m" by linarith
  then show ?thesis
  proof cases
    case 1
    then have "x \<in> set (take n xs)" using m by (auto simp: in_set_conv_nth)
    then show ?thesis by simp
  next
    case 2
    then have "x = drop (Suc n) xs ! (m - Suc n)" "m - Suc n < length (drop (Suc n) xs)"
      using m by auto
    then have "x \<in> set (drop (Suc n) xs)" by (metis nth_mem)
    then show ?thesis by simp
  qed
qed

lemma live_ids_finally_block:
  assumes "\<not> pre_terminal (pc (tasks s ! n))"
  shows "live_ids s \<subseteq> live_ids (finally_block n s)"
proof
  fix k assume "k \<in> live_ids s"
  then obtain t where t: "t \<in> set (tasks s)" "pre_terminal (pc t)" "tid t = k"
    by (auto simp: live_ids_def)
  then have "t \<noteq> tasks s ! n" using assms by auto
  then have "t \<in> set (tasks (finally_block n s))"
    using t(1) by (simp add: finally_block_def set_remove_nth del: set_append)
  then show "k \<in> live_ids (finally_block n s)" using t(2,3) by (auto simp: live_ids_def)
qed


subsection \<open>The pipeline keeps every active job covered\<close>

lemma covered_end:
  assumes "covered s" and "active_ids s' \<subseteq> active_ids s - {i}"
    and "live_ids s - {i} \<subseteq> live_ids s'"
  shows "covered s'"
  using assms unfolding covered_def by blast

lemma covered_stay:
  assumes "covered s" and "active_ids s' \<subseteq> insert i (active_ids s)"
    and "insert i (live_ids s) \<subseteq> live_ids s'"
  shows "covered s'"
  using assms unfolding covered_def by blast

lemma covered_cong: "jobs s' = jobs s \<Longrightarrow> tasks s' = tasks s \<Longrightarrow> covered s' = covered s"
  by (simp add: covered_def active_ids_def live_ids_def)

lemma jobs_catch_block:
  "jobs (catch_block n e s)
     = jobs (setJob (tid (tasks s ! n)) (\<lambda>r. r\<lparr>status := Error, error := Some (catch_text e)\<rparr>) s)"
  by (simp add: catch_block_def Let_def)

lemma tasks_catch_block: "tasks (catch_block n e s) = tasks (set_pc n AwaitFailMsg s)"
  by (simp add: catch_block_def Let_def set_pc_def)

lemma length_tasks_catch_block [simp]: "length (tasks (catch_block n e s)) = length (tasks s)"
  by (simp add: tasks_catch_block)

lemma covered_catch_block:
  assumes "covered s"
  shows "covered (catch_block n e s)"
proof (rule covered_end [OF assms, where i = "tid (tasks s ! n)"])
  have "active_ids (catch_block n e s)
      = active_ids (setJob (tid (tasks s ! n)) (\<lambda>r. r\<lparr>status := Error, error := Some (catch_text e)\<rparr>) s)"
    by (rule active_ids_cong) (rule jobs_catch_block)
  also have "\<dots> \<subseteq> active_ids s - {tid (tasks s ! n)}"
    by (rule active_ids_setJob_terminal) (simp add: active_def)
  finally show "active_ids (catch_block n e s) \<subseteq> active_ids s - {tid (tasks s ! n)}" .
next
  have "live_ids (catch_block n e s) = live_ids (set_pc n AwaitFailMsg s)"
    by (rule live_ids_cong) (rule tasks_catch_block)
  then show "live_ids s - {tid (tasks s ! n)} \<subseteq> live_ids (catch_block n e s)"
    using live_ids_set_pc_end [of s n AwaitFailMsg] by simp
qed

lemma length_tasks_upload_items [simp]:
  "length (tasks (upload_items n fls sent rest s)) = length (tasks s)"
  by (cases rest) (simp_all add: upload_items_def Let_def)

lemma covered_upload_items:
  assumes "covered s" and "n < length (tasks s)"
  shows "covered (upload_items n fls sent rest s)"
proof (cases rest)
  case Nil
  have j: "jobs (upload_items n fls sent rest s)
      = jobs (setJob (tid (tasks s ! n)) (\<lambda>r. r\<lparr>status := Done\<rparr>) s)"
    using Nil by (simp add: upload_items_def Let_def)
  have t: "tasks (upload_items n fls sent rest s) = tasks (set_pc n AwaitPlaylistDone s)"
    using Nil by (simp add: upload_items_def Let_def set_pc_def)
  show ?thesis
  proof (rule covered_end [OF assms(1), where i = "tid (tasks s ! n)"])
    have "active_ids (upload_items n fls sent rest s)
        = active_ids (setJob (tid (tasks s ! n)) (\<lambda>r. r\<lparr>status := Done\<rparr>) s)"
      by (rule active_ids_cong) (rule j)
    also have "\<dots> \<subseteq> active_ids s - {tid (tasks s ! n)}"
      by (rule active_ids_setJob_terminal) (simp add: active_def)
    finally show "active_ids (upload_items n fls sent rest s) \<subseteq> active_ids s - {tid (tasks s ! n)}" .
  next
    have "live_ids (upload_items n fls sent rest s) = live_ids (set_pc n AwaitPlaylistDone s)"
      by (rule live_ids_cong) (rule t)
    then show "live_ids s - {tid (tasks s ! n)} \<subseteq> live_ids (upload_items n fls sent rest s)"
      using live_ids_set_pc_end [of s n AwaitPlaylistDone] by simp
  qed
next
  case (Cons fp rest')
  have j: "jobs (upload_items n fls sent rest s) = jobs s"
    using Cons by (simp add: upload_items_def Let_def)
  have t: "tasks (upload_items n fls sent rest s)
      = tasks (set_pc n (AwaitItem fls (Suc sent) fp rest') s)"
    using Cons by (simp add: upload_items_def Let_def set_pc_def)
  show ?thesis
  proof (rule covered_stay [OF assms(1), where i = "tid (tasks s ! n)"])
    show "active_ids (upload_items n fls sent rest s) \<subseteq> insert (tid (tasks s ! n)) (active_ids s)"
      using active_ids_cong [OF j] by auto
  next
    have "live_ids (upload_items n fls sent rest s)
        = live_ids (set_pc n (AwaitItem fls (Suc sent) fp rest') s)"
      by (rule live_ids_cong) (rule t)
    then show "insert (tid (tasks s ! n)) (live_ids s) \<subseteq> live_ids (upload_items n fls sent rest s)"
      using live_ids_set_pc_stay [OF assms(2), of "AwaitItem fls (Suc sent) fp rest'"]
      by (simp add: pre_terminal_def)
  qed
qed

lemma length_tasks_after_download [simp]:
  "length (tasks (after_download n res s)) = length (tasks s)"
  by (cases res) (simp_all add: after_download_def Let_def)

lemma covered_after_download:
  assumes "covered s" and "n < length (tasks s)"
  shows "covered (after_download n res s)"
proof (rule covered_stay [OF assms(1), where i = "tid (tasks s ! n)"])
  let ?i = "tid (tasks s ! n)"
  let ?s1 = "setJob ?i (\<lambda>r. r\<lparr>status := Uploading\<rparr>) s"
  have a1: "active_ids ?s1 \<subseteq> insert ?i (active_ids s)"
    by (rule active_ids_setJob_subset)
  show "active_ids (after_download n res s) \<subseteq> insert ?i (active_ids s)"
  proof (cases res)
    case (Single filePath)
    have "active_ids (after_download n res s)
        = active_ids (setJob ?i (\<lambda>r. r\<lparr>file_path := Some filePath, file_name := Some (basename filePath)\<rparr>) ?s1)"
      by (rule active_ids_cong) (simp add: Single after_download_def Let_def)
    also have "\<dots> = active_ids ?s1" by (rule active_ids_setJob_same) simp
    finally show ?thesis using a1 by simp
  next
    case (Multi result)
    have "active_ids (after_download n res s)
        = active_ids (setJob ?i (\<lambda>r. r\<lparr>file_name := Some (show_nat (length (sort result)) @ '' files''),
                                         file_path := None\<rparr>) ?s1)"
      by (rule active_ids_cong) (simp add: Multi after_download_def Let_def)
    also have "\<dots> = active_ids ?s1" by (rule active_ids_setJob_same) simp
    finally show ?thesis using a1 by simp
  qed
  show "insert ?i (live_ids s) \<subseteq> live_ids (after_download n res s)"
  proof (cases res)
    case (Single filePath)
    have "live_ids (after_download n res s) = live_ids (set_pc n (AwaitSingleUpload filePath) s)"
      by (rule live_ids_cong) (simp add: Single after_download_def Let_def set_pc_def)
    then show ?thesis
      using live_ids_set_pc_stay [OF assms(2), of "AwaitSingleUpload filePath"]
      by (simp add: pre_terminal_def)
  next
    case (Multi result)
    have "live_ids (after_download n res s) = live_ids (set_pc n (AwaitPlaylistMsg (sort result)) s)"
      by (rule live_ids_cong) (simp add: Multi after_download_def Let_def set_pc_def)
    then show ?thesis
      using live_ids_set_pc_stay [OF assms(2), of "AwaitPlaylistMsg (sort result)"]
      by (simp add: pre_terminal_def)
  qed
qed

lemma length_tasks_runDownload [simp]:
  "length (tasks (runDownload cfg n s)) = length (tasks s)"
  by (cases "route cfg (turl (tasks s ! n))") (simp_all add: runDownload_def Let_def)

lemma covered_runDownload:
  assumes "covered s" and "n < length (tasks s)"
  shows "covered (runDownload cfg n s)"
proof (cases "route cfg (turl (tasks s ! n))")
  case (Inl e)
  then show ?thesis using covered_catch_block [OF assms(1)] by (simp add: runDownload_def Let_def)
next
  case (Inr g)
  have j: "jobs (runDownload cfg n s) = jobs s"
    using Inr by (simp add: runDownload_def Let_def)
  have t: "tasks (runDownload cfg n s) = tasks (set_pc n (AwaitDownload g [] []) s)"
    using Inr by (simp add: runDownload_def Let_def set_pc_def)
  show ?thesis
  proof (rule covered_stay [OF assms(1), where i = "tid (tasks s ! n)"])
    show "active_ids (runDownload cfg n s) \<subseteq> insert (tid (tasks s ! n)) (active_ids s)"
      using active_ids_cong [OF j] by auto
  next
    have "live_ids (runDownload cfg n s) = live_ids (set_pc n (AwaitDownload g [] []) s)"
      by (rule live_ids_cong) (rule t)
    then show "insert (tid (tasks s ! n)) (live_ids s) \<subseteq> live_ids (runDownload cfg n s)"
      using live_ids_set_pc_stay [OF assms(2), of "AwaitDownload g [] []"]
      by (simp add: pre_terminal_def)
  qed
qed

lemma covered_finally_block:
  assumes "covered s" and "\<not> pre_terminal (pc (tasks s ! n))"
  shows "covered (finally_block n s)"
proof -
  have "active_ids (finally_block n s) = active_ids s"
    by (rule active_ids_cong) simp
  then show ?thesis
    using assms(1) live_ids_finally_block [OF assms(2)] unfolding covered_def by blast
qed


lemma covered_update [simp]:
  "covered (s\<lparr>disk := d\<rparr>) = covered s"
  "covered (s\<lparr>timers := ts\<rparr>) = covered s"
  "covered (s\<lparr>immediates := m\<rparr>) = covered s"
  "covered (s\<lparr>clock := c\<rparr>) = covered s"
  by (simp_all add: covered_def active_ids_def live_ids_def)

lemma covered_on_settle:
  assumes "covered s" and "n < length (tasks s)"
  shows "covered (on_settle cfg n r s)"
proof (cases "pc (tasks s ! n)")
  case AwaitStart
  then show ?thesis using assms
    by (cases r) (simp_all add: on_settle_def Let_def covered_catch_block covered_runDownload)
next
  case (AwaitDownload g fp err)
  then show ?thesis using assms by (simp add: on_settle_def Let_def)
next
  case (AwaitPlaylistMsg fls)
  then show ?thesis using assms
    by (cases r) (simp_all add: on_settle_def Let_def covered_catch_block covered_upload_items)
next
  case (AwaitItem fls sent fp rest)
  then show ?thesis using assms
    by (cases r) (simp_all add: on_settle_def Let_def covered_catch_block covered_upload_items)
next
  case AwaitPlaylistDone
  then show ?thesis using assms
    by (cases r) (simp_all add: on_settle_def Let_def covered_catch_block covered_finally_block
        pre_terminal_def)
next
  case (AwaitSingleUpload filePath)
  have e: "covered (set_pc n AwaitSingleDone
             (tgSendMessage (single_done_text (tid (tasks s ! n)))
               (setJob (tid (tasks s ! n)) (\<lambda>r. r\<lparr>status := Done\<rparr>) s)))"
  proof (rule covered_end [OF assms(1), where i = "tid (tasks s ! n)"])
    have "active_ids (set_pc n AwaitSingleDone
             (tgSendMessage (single_done_text (tid (tasks s ! n)))
               (setJob (tid (tasks s ! n)) (\<lambda>r. r\<lparr>status := Done\<rparr>) s)))
        = active_ids (setJob (tid (tasks s ! n)) (\<lambda>r. r\<lparr>status := Done\<rparr>) s)"
      by (rule active_ids_cong) simp
    also have "\<dots> \<subseteq> active_ids s - {tid (tasks s ! n)}"
      by (rule active_ids_setJob_terminal) (simp add: active_def)
    finally show "active_ids (set_pc n AwaitSingleDone
             (tgSendMessage (single_done_text (tid (tasks s ! n)))
               (setJob (tid (tasks s ! n)) (\<lambda>r. r\<lparr>status := Done\<rparr>) s)))
        \<subseteq> active_ids s - {tid (tasks s ! n)}" .
  next
    have "live_ids (set_pc n AwaitSingleDone
             (tgSendMessage (single_done_text (tid (tasks s ! n)))
               (setJob (tid (tasks s ! n)) (\<lambda>r. r\<lparr>status := Done\<rparr>) s)))
        = live_ids (set_pc n AwaitSingleDone s)"
      by (rule live_ids_cong) (simp add: set_pc_def)
    then show "live_ids s - {tid (tasks s ! n)} \<subseteq> live_ids (set_pc n AwaitSingleDone
             (tgSendMessage (single_done_text (tid (tasks s ! n)))
               (setJob (tid (tasks s ! n)) (\<lambda>r. r\<lparr>status := Done\<rparr>) s)))"
      using live_ids_set_pc_end [of s n AwaitSingleDone] by simp
  qed
  show ?thesis using AwaitSingleUpload assms e
    by (cases r) (simp_all add: on_settle_def Let_def covered_catch_block)
next
  case AwaitSingleDone
  then show ?thesis using assms
    by (cases r) (simp_all add: on_settle_def Let_def covered_catch_block covered_finally_block
        pre_terminal_def)
next
  case AwaitFailMsg
  then show ?thesis using assms
    by (simp add: on_settle_def Let_def covered_finally_block pre_terminal_def)
qed

lemma finally_block_counters [simp]:
  "running (finally_block n s) = running s - 1"
  "immediates (finally_block n s) = Suc (immediates s)"
  by (simp_all add: finally_block_def)

lemma length_tasks_finally_block:
  "n < length (tasks s) \<Longrightarrow> int (length (tasks (finally_block n s))) = int (length (tasks s)) - 1"
  by (simp add: finally_block_def)

lemma counters_on_settle:
  assumes "n < length (tasks s)"
  shows "running (on_settle cfg n r s) - int (length (tasks (on_settle cfg n r s)))
           = running s - int (length (tasks s))
       \<and> running (on_settle cfg n r s) \<le> running s"
proof (cases "pc (tasks s ! n)")
  case AwaitStart
  then show ?thesis by (cases r) (simp_all add: on_settle_def Let_def)
next
  case (AwaitDownload g fp err)
  then show ?thesis by (simp add: on_settle_def Let_def)
next
  case (AwaitPlaylistMsg fls)
  then show ?thesis by (cases r) (simp_all add: on_settle_def Let_def)
next
  case (AwaitItem fls sent fp rest)
  then show ?thesis by (cases r) (simp_all add: on_settle_def Let_def)
next
  case AwaitPlaylistDone
  then show ?thesis using assms
    by (cases r) (simp_all add: on_settle_def Let_def length_tasks_finally_block)
next
  case (AwaitSingleUpload filePath)
  then show ?thesis by (cases r) (simp_all add: on_settle_def Let_def)
next
  case AwaitSingleDone
  then show ?thesis using assms
    by (cases r) (simp_all add: on_settle_def Let_def length_tasks_finally_block)
next
  case AwaitFailMsg
  then show ?thesis using assms
    by (simp add: on_settle_def Let_def length_tasks_finally_block)
qed

lemma keys_catch_block [simp]: "map fst (jobs (catch_block n e s)) = map fst (jobs s)"
  by (simp add: jobs_catch_block)

lemma keys_upload_items [simp]: "map fst (jobs (upload_items n fls sent rest s)) = map fst (jobs s)"
  by (cases rest) (simp_all add: upload_items_def Let_def)

lemma keys_after_download [simp]: "map fst (jobs (after_download n res s)) = map fst (jobs s)"
  by (cases res) (simp_all add: after_download_def Let_def)

lemma keys_runDownload [simp]: "map fst (jobs (runDownload cfg n s)) = map fst (jobs s)"
  by (cases "route cfg (turl (tasks s ! n))") (simp_all add: runDownload_def Let_def)

lemma keys_on_settle [simp]: "map fst (jobs (on_settle cfg n r s)) = map fst (jobs s)"
  by (cases "pc (tasks s ! n)"; cases r) (simp_all add: on_settle_def Let_def)

lemma gate_inv_on_settle:
  assumes "gate_inv cfg s" and "n < length (tasks s)"
  shows "gate_inv cfg (on_settle cfg n r s)"
  using assms covered_on_settle [of s n cfg r] counters_on_settle [of n s cfg r]
  unfolding gate_inv_def by auto


lemma gate_inv_cong:
  assumes "jobs s' = jobs s" and "tasks s' = tasks s" and "running s' = running s"
  shows "gate_inv cfg s' = gate_inv cfg s"
  using assms covered_cong [OF assms(1,2)] by (simp add: gate_inv_def)

lemma gate_inv_on_data:
  assumes "gate_inv cfg s" and "n < length (tasks s)"
  shows "gate_inv cfg (on_data cfg b n chunk s)"
proof (cases "pc (tasks s ! n)")
  case (AwaitDownload g fp err)
  let ?p = "if b then AwaitDownload g fp (on_stderr g chunk err)
            else AwaitDownload g (on_stdout cfg g chunk fp) err"
  have eq: "on_data cfg b n chunk s = set_pc n ?p (pushLog (tid (tasks s ! n)) chunk s)"
    using AwaitDownload by (simp add: on_data_def Let_def)
  have c: "covered (on_data cfg b n chunk s)"
  proof (rule covered_stay [where s = s and i = "tid (tasks s ! n)"])
    show "covered s" using assms(1) by (simp add: gate_inv_def)
    have "active_ids (on_data cfg b n chunk s) = active_ids (pushLog (tid (tasks s ! n)) chunk s)"
      by (rule active_ids_cong) (simp add: eq)
    then show "active_ids (on_data cfg b n chunk s) \<subseteq> insert (tid (tasks s ! n)) (active_ids s)"
      by auto
    have "live_ids (on_data cfg b n chunk s) = live_ids (set_pc n ?p s)"
      by (rule live_ids_cong) (simp add: eq set_pc_def)
    moreover have "pre_terminal ?p" by (simp add: pre_terminal_def)
    ultimately show "insert (tid (tasks s ! n)) (live_ids s) \<subseteq> live_ids (on_data cfg b n chunk s)"
      using live_ids_set_pc_stay [OF assms(2), of ?p] by simp
  qed
  have "length (tasks (on_data cfg b n chunk s)) = length (tasks s)"
    "map fst (jobs (on_data cfg b n chunk s)) = map fst (jobs s)"
    by (simp_all add: eq)
  then show ?thesis using assms(1) c by (simp add: gate_inv_def)
qed (use assms in \<open>simp_all add: on_data_def Let_def\<close>)

lemma gate_inv_on_proc_error:
  assumes "gate_inv cfg s" and "n < length (tasks s)"
  shows "gate_inv cfg (on_proc_error n e s)"
proof (cases "pc (tasks s ! n)")
  case (AwaitDownload g fp err)
  then have "on_proc_error n e s = catch_block n e s" by (simp add: on_proc_error_def)
  then show ?thesis using assms covered_catch_block [of s n e] by (simp add: gate_inv_def)
qed (use assms in \<open>simp_all add: on_proc_error_def\<close>)

lemma gate_inv_on_proc_close:
  assumes "gate_inv cfg s" and "n < length (tasks s)"
  shows "gate_inv cfg (on_proc_close cfg n code s)"
proof (cases "pc (tasks s ! n)")
  case (AwaitDownload g fp err)
  show ?thesis
  proof (cases "on_close cfg g (tid (tasks s ! n)) code fp err (disk s)")
    case (Inl e)
    then have "on_proc_close cfg n code s = catch_block n e s"
      using AwaitDownload by (simp add: on_proc_close_def Let_def)
    then show ?thesis using assms covered_catch_block [of s n e] by (simp add: gate_inv_def)
  next
    case (Inr res)
    then have "on_proc_close cfg n code s = after_download n res s"
      using AwaitDownload by (simp add: on_proc_close_def Let_def)
    then show ?thesis using assms covered_after_download [of s n res] by (simp add: gate_inv_def)
  qed
qed (use assms in \<open>simp_all add: on_proc_close_def Let_def\<close>)

lemma gate_inv_processQueue:
  assumes "gate_inv cfg s"
  shows "gate_inv cfg (processQueue cfg s)"
proof (cases "MAX_CONCURRENT cfg \<le> running s")
  case True
  then show ?thesis using assms by (simp add: processQueue_def)
next
  case below: False
  show ?thesis
  proof (cases "queue s")
    case Nil
    then show ?thesis using assms below by (simp add: processQueue_def)
  next
    case (Cons i rest)
    show ?thesis
    proof (cases "map_of (jobs s) i")
      case None
      then have "processQueue cfg s = s\<lparr>queue := rest, running := running s + 1, running := running s + 1 - 1\<rparr>"
        using below Cons by (simp add: processQueue_def Let_def)
      then show ?thesis using assms gate_inv_cong [of "processQueue cfg s" s cfg] by simp
    next
      case (Some j)
      let ?s1 = "s\<lparr>queue := rest, running := running s + 1\<rparr>"
      let ?s2 = "setJob i (\<lambda>r. r\<lparr>status := Downloading\<rparr>) ?s1"
      let ?t = "\<lparr>tid = i, turl = url j, pc = AwaitStart\<rparr>"
      have eq: "processQueue cfg s
          = (tgSendMessage (start_text i (url j)) ?s2)\<lparr>tasks := tasks s @ [?t]\<rparr>"
        using below Cons Some by (simp add: processQueue_def Let_def)
      have r: "running (processQueue cfg s) = running s + 1"
        "tasks (processQueue cfg s) = tasks s @ [?t]"
        "map fst (jobs (processQueue cfg s)) = map fst (jobs s)"
        by (simp_all add: eq)
      have a: "active_ids (processQueue cfg s) \<subseteq> insert i (active_ids s)"
      proof -
        have "active_ids (processQueue cfg s) = active_ids ?s2"
          by (rule active_ids_cong) (simp add: eq)
        also have "\<dots> \<subseteq> insert i (active_ids ?s1)" by (rule active_ids_setJob_subset)
        also have "active_ids ?s1 = active_ids s" by (rule active_ids_cong) simp
        finally show ?thesis .
      qed
      have "{t \<in> set (tasks s @ [?t]). pre_terminal (pc t)}
          = insert ?t {t \<in> set (tasks s). pre_terminal (pc t)}"
        by (auto simp: pre_terminal_def)
      then have l: "live_ids (processQueue cfg s) = insert i (live_ids s)"
        by (simp add: live_ids_def r(2))
      have "covered (processQueue cfg s)"
        using assms a l by (auto simp: gate_inv_def covered_def)
      then show ?thesis using assms below r by (simp add: gate_inv_def)
    qed
  qed
qed

lemma gate_inv_post_jobs:
  assumes "gate_inv cfg s"
  shows "gate_inv cfg (snd (post_jobs cfg body_url nid s))"
proof (cases "submitted_url body_url = [] \<or> \<not> isValidUrl cfg (submitted_url body_url)")
  case True
  then have "snd (post_jobs cfg body_url nid s) = s"
    by (auto simp: post_jobs_def Let_def submitted_url_def)
  then show ?thesis using assms by simp
next
  case False
  define rec where "rec = \<lparr> job_id = nid, url = submitted_url body_url, status = Queued,
      created_at = clock s, updated_at = clock s, file_path = None, file_name = None,
      error = None, log = [] \<rparr>"
  have rec: "status rec = Queued" by (simp add: rec_def)
  have eq: "snd (post_jobs cfg body_url nid s)
      = s\<lparr>jobs := AList.update nid rec (jobs s), queue := queue s @ [nid],
           immediates := Suc (immediates s)\<rparr>"
    using False by (simp add: post_jobs_def Let_def submitted_url_def rec_def)
  have "active_ids (snd (post_jobs cfg body_url nid s)) \<subseteq> active_ids s"
    using rec by (auto simp: eq active_ids_def update_conv' active_def split: if_splits)
  moreover have "live_ids (snd (post_jobs cfg body_url nid s)) = live_ids s"
    by (rule live_ids_cong) (simp add: eq)
  ultimately have "covered (snd (post_jobs cfg body_url nid s))"
    using assms by (auto simp: gate_inv_def covered_def)
  then show ?thesis using assms by (simp add: gate_inv_def eq distinct_update)
qed

lemma gate_inv_step:
  assumes "gate_inv cfg s"
  shows "gate_inv cfg (step cfg ev s)"
proof (cases ev)
  case (Post body_url nid)
  then show ?thesis using gate_inv_post_jobs [OF assms] by (simp add: step_def)
next
  case (Get i)
  then show ?thesis using assms by (simp add: step_def get_job_def split: option.splits)
next
  case Immediate
  have "gate_inv cfg (s\<lparr>immediates := immediates s - 1\<rparr>)"
    using assms gate_inv_cong [of "s\<lparr>immediates := immediates s - 1\<rparr>" s cfg] by simp
  then show ?thesis using Immediate assms gate_inv_processQueue by (simp add: step_def)
next
  case (Settle n r)
  then show ?thesis using assms gate_inv_on_settle by (simp add: step_def)
next
  case (Stdout n chunk)
  then show ?thesis using assms gate_inv_on_data by (simp add: step_def)
next
  case (Stderr n chunk)
  then show ?thesis using assms gate_inv_on_data by (simp add: step_def)
next
  case (ProcError n e)
  then show ?thesis using assms gate_inv_on_proc_error by (simp add: step_def)
next
  case (Close n code)
  then show ?thesis using assms gate_inv_on_proc_close by (simp add: step_def)
next
  case (Timeout k)
  have "gate_inv cfg (cleanup_fire i (s\<lparr>timers := ts\<rparr>))" for i ts
    using assms gate_inv_cong [of "cleanup_fire i (s\<lparr>timers := ts\<rparr>)" s cfg]
    by (simp add: cleanup_fire_def split: option.splits)
  then show ?thesis using Timeout assms by (simp add: step_def)
next
  case (FsWrite p)
  then show ?thesis
    using assms gate_inv_cong [of "step cfg ev s" s cfg] by (simp add: step_def)
next
  case (FsRemove p)
  then show ?thesis
    using assms gate_inv_cong [of "step cfg ev s" s cfg] by (simp add: step_def)
next
  case (FsProtect p)
  then show ?thesis
    using assms gate_inv_cong [of "step cfg ev s" s cfg] by (simp add: step_def)
next
  case Tick
  then show ?thesis
    using assms gate_inv_cong [of "step cfg ev s" s cfg] by (simp add: step_def)
qed

lemma gate_inv_run: "gate_inv cfg s \<Longrightarrow> gate_inv cfg (run cfg evs s)"
  by (induction evs arbitrary: s) (simp_all add: gate_inv_step)

lemma gate_inv_init: "0 \<le> MAX_CONCURRENT cfg \<Longrightarrow> gate_inv cfg (init d)"
  by (simp add: gate_inv_def init_def covered_def active_ids_def)

lemma in_flight_card:
  assumes "distinct (map fst (jobs s))"
  shows "in_flight s = card (active_ids s)"
proof -
  let ?P = "\<lambda>(k, j). active (status j)"
  have d: "distinct (map fst (filter ?P (jobs s)))"
    using assms by (rule distinct_map_filter)
  have "set (map fst (filter ?P (jobs s))) = active_ids s"
    using assms by (auto simp: active_ids_def image_iff)
  then have "card (active_ids s) = length (map fst (filter ?P (jobs s)))"
    using distinct_card [OF d] by simp
  then show ?thesis by (simp add: in_flight_def)
qed

lemma in_flight_le_running:
  assumes "gate_inv cfg s"
  shows "int (in_flight s) \<le> running s"
proof -
  have "card (active_ids s) \<le> card (live_ids s)"
    using assms by (intro card_mono) (simp_all add: gate_inv_def covered_def live_ids_def)
  also have "\<dots> \<le> card (set (tasks s))"
    unfolding live_ids_def by (intro card_image_le [THEN order_trans] card_mono) auto
  also have "\<dots> \<le> length (tasks s)" by (rule card_length)
  finally show ?thesis using assms in_flight_card [of s] by (simp add: gate_inv_def)
qed


lemma completion_on_settle:
  assumes "n < length (tasks s)"
    and "length (tasks (on_settle cfg n r s)) < length (tasks s)"
  shows "running (on_settle cfg n r s) = running s - 1
       \<and> immediates (on_settle cfg n r s) = Suc (immediates s)"
proof (cases "pc (tasks s ! n)")
  case AwaitStart
  then show ?thesis using assms(2) by (cases r) (simp_all add: on_settle_def Let_def)
next
  case (AwaitDownload g fp err)
  then show ?thesis using assms(2) by (simp add: on_settle_def Let_def)
next
  case (AwaitPlaylistMsg fls)
  then show ?thesis using assms(2) by (cases r) (simp_all add: on_settle_def Let_def)
next
  case (AwaitItem fls sent fp rest)
  then show ?thesis using assms(2) by (cases r) (simp_all add: on_settle_def Let_def)
next
  case AwaitPlaylistDone
  then show ?thesis using assms(2) by (cases r) (simp_all add: on_settle_def Let_def)
next
  case (AwaitSingleUpload filePath)
  then show ?thesis using assms(2) by (cases r) (simp_all add: on_settle_def Let_def)
next
  case AwaitSingleDone
  then show ?thesis using assms(2) by (cases r) (simp_all add: on_settle_def Let_def)
next
  case AwaitFailMsg
  then show ?thesis using assms(2) by (simp add: on_settle_def Let_def)
qed

lemma length_tasks_on_data [simp]: "length (tasks (on_data cfg b n chunk s)) = length (tasks s)"
  by (cases "pc (tasks s ! n)") (simp_all add: on_data_def Let_def)

lemma length_tasks_on_proc_error [simp]: "length (tasks (on_proc_error n e s)) = length (tasks s)"
  by (cases "pc (tasks s ! n)") (simp_all add: on_proc_error_def)

lemma length_tasks_on_proc_close [simp]:
  "length (tasks (on_proc_close cfg n code s)) = length (tasks s)"
  by (cases "pc (tasks s ! n)") (simp_all add: on_proc_close_def Let_def split: sum.splits)

lemma length_tasks_processQueue: "length (tasks s) \<le> length (tasks (processQueue cfg s))"
  by (simp add: processQueue_def Let_def split: list.splits option.splits)

lemma completion_step:
  assumes "length (tasks (step cfg ev s)) < length (tasks s)"
  shows "running (step cfg ev s) = running s - 1
       \<and> immediates (step cfg ev s) = Suc (immediates s)"
proof (cases ev)
  case (Settle n r)
  then show ?thesis using assms completion_on_settle [of n s cfg r]
    by (cases "n < length (tasks s)") (simp_all add: step_def)
next
  case (Post body_url nid)
  then show ?thesis using assms by (simp add: step_def post_jobs_def Let_def split: if_splits)
next
  case (Get i)
  then show ?thesis using assms by (simp add: step_def get_job_def split: option.splits)
next
  case Immediate
  then show ?thesis
    using assms length_tasks_processQueue [of "s\<lparr>immediates := immediates s - 1\<rparr>" cfg]
    by (simp add: step_def split: if_splits)
next
  case (Stdout n chunk)
  then show ?thesis using assms by (simp add: step_def split: if_splits)
next
  case (Stderr n chunk)
  then show ?thesis using assms by (simp add: step_def split: if_splits)
next
  case (ProcError n e)
  then show ?thesis using assms by (simp add: step_def split: if_splits)
next
  case (Close n code)
  then show ?thesis using assms by (simp add: step_def split: if_splits)
next
  case (Timeout k)
  then show ?thesis using assms by (simp add: step_def split: if_splits)
next
  case (FsWrite p)
  then show ?thesis using assms by (simp add: step_def)
next
  case (FsRemove p)
  then show ?thesis using assms by (simp add: step_def)
next
  case (FsProtect p)
  then show ?thesis using assms by (simp add: step_def)
next
  case Tick
  then show ?thesis using assms by (simp add: step_def)
qed

lemma demo_two_jobs_eq:
  "demo_two_jobs =
     \<lparr> jobs = [(''A'', \<lparr> job_id = ''A'', url = demo_url, status = Downloading, created_at = 0,
                          updated_at = 0, file_path = None, file_name = None, error = None,
                          log = [] \<rparr>),
               (''B'', \<lparr> job_id = ''B'', url = demo_url, status = Queued, created_at = 0,
                          updated_at = 0, file_path = None, file_name = None, error = None,
                          log = [] \<rparr>)],
       running = 1, queue = [''B''],
       tasks = [\<lparr>tid = ''A'', turl = demo_url, pc = AwaitStart\<rparr>],
       immediates = 0, timers = [], disk = demo_fs,
       outbox = [SendMessage (start_text ''A'' demo_url)], clock = 0 \<rparr>"
  by (simp add: demo_two_jobs_def step_def post_jobs_def processQueue_def pipeline_defs init_def
      demo_cfg_def demo_parse_def demo_url_def isValidUrl_def trim_def is_space_def)

lemma admission:
  assumes "running s < MAX_CONCURRENT cfg" and "queue s = i # rest"
    and "map_of (jobs s) i = Some j"
  shows "running (processQueue cfg s) = running s + 1
       \<and> queue (processQueue cfg s) = rest
       \<and> tasks (processQueue cfg s) = tasks s @ [\<lparr>tid = i, turl = url j, pc = AwaitStart\<rparr>]
       \<and> map_of (jobs (processQueue cfg s)) i = Some (j\<lparr>status := Downloading, updated_at := clock s\<rparr>)"
  using assms by (simp add: processQueue_def Let_def map_of_setJob)

text \<open>
  C3: with a ceiling \<open>MAX_CONCURRENT \<ge> 1\<close>, in every state the server reaches from its
  initial state, whatever the requests, the environment and the interleaving of the
  pipelines, the number of jobs whose status is \<open>Downloading\<close> or \<open>Uploading\<close> is at most
  the counter \<^verbatim>\<open>running\<close>, which is at most the ceiling. A drive step at the ceiling
  does nothing; below it, it increments the counter and starts the pipeline of the queue's
  head; and a step that ends a pipeline, on success or on failure, decrements the counter
  and schedules one drive step.
\<close>

theorem concurrency_ceiling:
  assumes "1 \<le> MAX_CONCURRENT cfg" and "s = run cfg evs (init d)"
  shows "int (in_flight s) \<le> running s \<and> running s \<le> MAX_CONCURRENT cfg
       \<and> (MAX_CONCURRENT cfg \<le> running s \<longrightarrow> processQueue cfg s = s)
       \<and> (\<forall>i rest j. running s < MAX_CONCURRENT cfg \<and> queue s = i # rest
              \<and> map_of (jobs s) i = Some j \<longrightarrow>
            running (processQueue cfg s) = running s + 1
            \<and> tasks (processQueue cfg s) = tasks s @ [\<lparr>tid = i, turl = url j, pc = AwaitStart\<rparr>])
       \<and> (\<forall>ev. length (tasks (step cfg ev s)) < length (tasks s) \<longrightarrow>
            running (step cfg ev s) = running s - 1
            \<and> immediates (step cfg ev s) = Suc (immediates s))"
proof -
  have g: "gate_inv cfg s"
    using assms gate_inv_run [OF gate_inv_init, of cfg evs d] by simp
  have 1: "int (in_flight s) \<le> running s" using g by (rule in_flight_le_running)
  have 2: "running s \<le> MAX_CONCURRENT cfg" using g by (simp add: gate_inv_def)
  have 3: "MAX_CONCURRENT cfg \<le> running s \<longrightarrow> processQueue cfg s = s"
    by (simp add: processQueue_def)
  show ?thesis using 1 2 3 admission [of s cfg] completion_step [of cfg _ s] by blast
qed

text \<open>C3, witness: ceiling 1 and two jobs submitted back to back. The first is admitted,
  the second stays queued while the first is in flight, and when the first pipeline ends
  (here on a failure) the counter is back to 0.\<close>

theorem concurrency_ceiling_witness:
  "1 \<le> MAX_CONCURRENT demo_cfg
   \<and> running (run demo_cfg [Post (Some demo_url) ''A''] (init demo_fs)) = 0
   \<and> running (processQueue demo_cfg (run demo_cfg [Post (Some demo_url) ''A''] (init demo_fs))) = 1
   \<and> in_flight demo_two_jobs = 1 \<and> running demo_two_jobs = 1
   \<and> int (in_flight demo_two_jobs) \<le> MAX_CONCURRENT demo_cfg
   \<and> processQueue demo_cfg demo_two_jobs = demo_two_jobs
   \<and> running (step demo_cfg (Settle 0 (Inr ())) (step demo_cfg (Settle 0 (Inl tg_down)) demo_two_jobs)) = 0"
proof -
  have m: "1 \<le> MAX_CONCURRENT demo_cfg" "MAX_CONCURRENT demo_cfg = 1" by (simp_all add: demo_cfg_def)
  note t = concurrency_ceiling [OF m(1) demo_two_jobs_def]
  have r: "running demo_two_jobs = 1" by (simp add: demo_two_jobs_eq)
  have f: "in_flight demo_two_jobs = 1" by (simp add: demo_two_jobs_eq in_flight_def active_def)
  have c: "processQueue demo_cfg demo_two_jobs = demo_two_jobs" using t r m by simp
  let ?p = "run demo_cfg [Post (Some demo_url) ''A''] (init demo_fs)"
  have p: "running ?p < MAX_CONCURRENT demo_cfg \<and> queue ?p = ''A'' # []
      \<and> map_of (jobs ?p) ''A'' = Some \<lparr> job_id = ''A'', url = demo_url, status = Queued,
            created_at = 0, updated_at = 0, file_path = None, file_name = None, error = None,
            log = [] \<rparr>"
    "running ?p = 0"
    by (simp_all add: step_def post_jobs_def init_def m demo_cfg_def demo_parse_def demo_url_def
        isValidUrl_def trim_def is_space_def)
  note a = concurrency_ceiling [OF m(1) refl, of "[Post (Some demo_url) ''A'']" demo_fs,
      THEN conjunct2, THEN conjunct2, THEN conjunct2, THEN conjunct1, rule_format, OF p(1)]
  have a': "running (processQueue demo_cfg ?p) = 1" using a p(2) by simp
  let ?s = "step demo_cfg (Settle 0 (Inl tg_down)) demo_two_jobs"
  have s: "?s = run demo_cfg [Post (Some demo_url) ''A'', Post (Some demo_url) ''B'', Immediate,
      Immediate, Settle 0 (Inl tg_down)] (init demo_fs)"
    by (simp add: demo_two_jobs_def)
  note t' = concurrency_ceiling [OF m(1) s]
  have l: "length (tasks (step demo_cfg (Settle 0 (Inr ())) ?s)) < length (tasks ?s)"
    "running ?s = 1"
    by (simp_all add: demo_two_jobs_eq step_def pipeline_defs)
  have d: "running (step demo_cfg (Settle 0 (Inr ())) ?s) = 0"
    using t' l by simp
  show ?thesis using m t r f c d a' p(2) by simp
qed

section \<open>Multi-file delivery\<close>

lemma run_snoc: "run cfg (evs @ [ev]) s = step cfg ev (run cfg evs s)"
  by (induction evs arbitrary: s) simp_all

lemma deliver_0 [simp]: "deliver cfg n 0 s = s"
  by (simp add: deliver_def)

lemma deliver_Suc: "deliver cfg n (Suc k) s = step cfg (Settle n (Inr ())) (deliver cfg n k s)"
proof -
  have "replicate (Suc k) (Settle n (Inr ())) = replicate k (Settle n (Inr ())) @ [Settle n (Inr ())]"
    by (simp add: replicate_append_same)
  then show ?thesis unfolding deliver_def by (simp only: run_snoc)
qed

lemma unlink_all_snoc: "unlink_all (fps @ [f]) d = try_unlink f (unlink_all fps d)"
  by (simp add: unlink_all_def)

lemma undeletable_try_unlink [simp]: "undeletable (try_unlink p d) = undeletable d"
  by (simp add: try_unlink_def)

lemma files_try_unlink_subset: "set (files (try_unlink p d)) \<subseteq> set (files d)"
  by (auto simp: try_unlink_def)

lemma try_unlink_gone: "p \<notin> set (undeletable d) \<Longrightarrow> p \<notin> set (files (try_unlink p d))"
  by (simp add: try_unlink_def)

lemma undeletable_unlink_all [simp]: "undeletable (unlink_all fps d) = undeletable d"
  by (induction fps rule: rev_induct) (simp_all add: unlink_all_snoc, simp add: unlink_all_def)

lemma files_unlink_all_subset: "set (files (unlink_all fps d)) \<subseteq> set (files d)"
proof (induction fps rule: rev_induct)
  case Nil
  then show ?case by (simp add: unlink_all_def)
next
  case (snoc f fps)
  then show ?case using files_try_unlink_subset [of f "unlink_all fps d"]
    by (auto simp: unlink_all_snoc)
qed

lemma unlink_all_gone:
  assumes "p \<in> set fps" and "p \<notin> set (undeletable d)"
  shows "p \<notin> set (files (unlink_all fps d))"
  using assms
proof (induction fps rule: rev_induct)
  case Nil
  then show ?case by simp
next
  case (snoc f fps)
  show ?case
  proof (cases "p = f")
    case True
    have "f \<notin> set (undeletable (unlink_all fps d))" using snoc.prems(2) True by simp
    then show ?thesis using True try_unlink_gone by (simp add: unlink_all_snoc)
  next
    case False
    then have "p \<notin> set (files (unlink_all fps d))" using snoc by simp
    then show ?thesis using files_try_unlink_subset [of f "unlink_all fps d"]
      by (auto simp: unlink_all_snoc)
  qed
qed

lemma delivery_progress:
  assumes "n < length (tasks s0)" and "pc (tasks s0 ! n) = AwaitPlaylistMsg fls"
    and "k < length fls"
  shows "tasks (deliver cfg n (Suc k) s0)
           = (tasks s0)[n := (tasks s0 ! n)\<lparr>pc := AwaitItem fls (Suc k) (fls ! k) (drop (Suc k) fls)\<rparr>]
       \<and> jobs (deliver cfg n (Suc k) s0) = jobs s0
       \<and> disk (deliver cfg n (Suc k) s0) = unlink_all (take k fls) (disk s0)
       \<and> outbox (deliver cfg n (Suc k) s0)
           = outbox s0 @ map (\<lambda>q. SendFile (fls ! q)
                 (item_caption (tid (tasks s0 ! n)) (Suc q) (length fls) (fls ! q))) [0..<Suc k]
       \<and> clock (deliver cfg n (Suc k) s0) = clock s0"
  using assms(3)
proof (induction k)
  case 0
  then obtain f rest where f: "fls = f # rest" by (cases fls) auto
  show ?case using assms(1,2)
    by (simp add: deliver_Suc f step_def on_settle_def upload_items_def tgSendFileChecked_def
        set_pc_def Let_def unlink_all_def)
next
  case (Suc k)
  let ?sk = "deliver cfg n (Suc k) s0"
  have ih: "tasks ?sk = (tasks s0)[n := (tasks s0 ! n)\<lparr>pc := AwaitItem fls (Suc k) (fls ! k) (drop (Suc k) fls)\<rparr>]"
    "jobs ?sk = jobs s0" "disk ?sk = unlink_all (take k fls) (disk s0)"
    "outbox ?sk = outbox s0 @ map (\<lambda>q. SendFile (fls ! q)
                 (item_caption (tid (tasks s0 ! n)) (Suc q) (length fls) (fls ! q))) [0..<Suc k]"
    "clock ?sk = clock s0"
    using Suc by simp_all
  have d: "drop (Suc k) fls = fls ! Suc k # drop (Suc (Suc k)) fls"
    using Suc.prems by (simp add: Cons_nth_drop_Suc)
  have t: "take (Suc k) fls = take k fls @ [fls ! k]"
    using Suc.prems by (simp add: take_Suc_conv_app_nth)
  have n': "n < length (tasks ?sk)" "pc (tasks ?sk ! n) = AwaitItem fls (Suc k) (fls ! k) (drop (Suc k) fls)"
    "tid (tasks ?sk ! n) = tid (tasks s0 ! n)"
    using assms(1) by (simp_all add: ih(1))
  have st: "deliver cfg n (Suc (Suc k)) s0
      = upload_items n fls (Suc k) (fls ! Suc k # drop (Suc (Suc k)) fls)
          (?sk\<lparr>disk := try_unlink (fls ! k) (disk ?sk)\<rparr>)"
    unfolding deliver_Suc [of cfg n "Suc k"]
    using n' by (simp add: step_def on_settle_def Let_def d)
  show ?case
    unfolding st using assms(1) n'
    by (simp add: upload_items_def tgSendFileChecked_def set_pc_def Let_def ih t unlink_all_snoc
        del: upt_Suc) (simp add: ih(1))
qed


lemma delivery_complete:
  assumes "n < length (tasks s0)" and "pc (tasks s0 ! n) = AwaitPlaylistMsg fls"
    and "map_of (jobs s0) (tid (tasks s0 ! n)) = Some j"
  shows "map_of (jobs (deliver cfg n (Suc (length fls)) s0)) (tid (tasks s0 ! n))
           = Some (j\<lparr>status := Done, updated_at := clock s0\<rparr>)
       \<and> pc (tasks (deliver cfg n (Suc (length fls)) s0) ! n) = AwaitPlaylistDone
       \<and> disk (deliver cfg n (Suc (length fls)) s0) = unlink_all fls (disk s0)
       \<and> outbox (deliver cfg n (Suc (length fls)) s0)
           = outbox s0 @ map (\<lambda>q. SendFile (fls ! q)
                 (item_caption (tid (tasks s0 ! n)) (Suc q) (length fls) (fls ! q))) [0..<length fls]
               @ [SendMessage (playlist_done_text (tid (tasks s0 ! n)) (length fls))]"
proof (cases fls rule: rev_cases)
  case Nil
  then show ?thesis using assms
    by (simp add: deliver_Suc step_def on_settle_def upload_items_def tgSendMessage_def
        set_pc_def Let_def unlink_all_def map_of_setJob)
next
  case (snoc fls' f)
  define k where "k = length fls'"
  have k: "k < length fls" "length fls = Suc k" "fls ! k = f" "take k fls = fls'"
    "drop (Suc k) fls = []"
    by (simp_all add: k_def snoc)
  let ?sk = "deliver cfg n (Suc k) s0"
  note p = delivery_progress [OF assms(1,2) k(1), of cfg]
  have ih: "tasks ?sk = (tasks s0)[n := (tasks s0 ! n)\<lparr>pc := AwaitItem fls (Suc k) f []\<rparr>]"
    "jobs ?sk = jobs s0" "disk ?sk = unlink_all fls' (disk s0)"
    "outbox ?sk = outbox s0 @ map (\<lambda>q. SendFile (fls ! q)
                 (item_caption (tid (tasks s0 ! n)) (Suc q) (length fls) (fls ! q))) [0..<Suc k]"
    "clock ?sk = clock s0"
    using p by (simp_all only: k)
  have n': "n < length (tasks ?sk)" "pc (tasks ?sk ! n) = AwaitItem fls (Suc k) f []"
    "tid (tasks ?sk ! n) = tid (tasks s0 ! n)"
    using assms(1) by (simp_all add: ih(1))
  have st: "deliver cfg n (Suc (length fls)) s0
      = upload_items n fls (Suc k) [] (?sk\<lparr>disk := try_unlink f (disk ?sk)\<rparr>)"
    unfolding k(2) deliver_Suc [of cfg n "Suc k"]
    using n' by (simp add: step_def on_settle_def Let_def)
  have u: "unlink_all fls (disk s0) = try_unlink f (unlink_all fls' (disk s0))"
    by (simp add: snoc unlink_all_snoc)
  show ?thesis
    unfolding st using assms(1,3) n'
    by (simp add: upload_items_def tgSendMessage_def set_pc_def Let_def ih u map_of_setJob
        del: upt_Suc) (simp add: ih(1) k(2))
qed

lemma delivery_failure:
  assumes "n < length (tasks s0)" and "pc (tasks s0 ! n) = AwaitPlaylistMsg fls"
    and "map_of (jobs s0) (tid (tasks s0 ! n)) = Some j" and "k < length fls"
  shows "map_of (jobs (step cfg (Settle n (Inl e)) (deliver cfg n (Suc k) s0))) (tid (tasks s0 ! n))
           = Some (j\<lparr>status := Error, error := Some (catch_text e), updated_at := clock s0\<rparr>)
       \<and> pc (tasks (step cfg (Settle n (Inl e)) (deliver cfg n (Suc k) s0)) ! n) = AwaitFailMsg
       \<and> disk (step cfg (Settle n (Inl e)) (deliver cfg n (Suc k) s0))
           = unlink_all (take k fls) (disk s0)"
proof -
  let ?sk = "deliver cfg n (Suc k) s0"
  note p = delivery_progress [OF assms(1,2,4), of cfg]
  have n': "n < length (tasks ?sk)"
    "pc (tasks ?sk ! n) = AwaitItem fls (Suc k) (fls ! k) (drop (Suc k) fls)"
    "tid (tasks ?sk ! n) = tid (tasks s0 ! n)"
    using assms(1) p by simp_all
  have st: "step cfg (Settle n (Inl e)) ?sk = catch_block n e ?sk"
    using n' by (simp add: step_def on_settle_def Let_def)
  show ?thesis
    unfolding st using n' assms(3) p
    by (simp add: catch_block_def Let_def map_of_setJob)
qed

lemma sent_files_append [simp]: "sent_files (a @ b) = sent_files a @ sent_files b"
  by (simp add: sent_files_def)

lemma sent_files_Cons [simp]:
  "sent_files (SendMessage txt # out) = sent_files out"
  "sent_files (SendFile fp cap # out) = fp # sent_files out"
  "sent_files (Spawn g i u # out) = sent_files out"
  "sent_files [] = []"
  by (simp_all add: sent_files_def)

lemma sent_files_uploads:
  "k \<le> length fls \<Longrightarrow> sent_files (map (\<lambda>q. SendFile (fls ! q) (cap q)) [0..<k]) = take k fls"
proof (induction k)
  case 0
  then show ?case by (simp add: sent_files_def)
next
  case (Suc k)
  then have "take (Suc k) fls = take k fls @ [fls ! k]"
    by (simp add: take_Suc_conv_app_nth)
  then show ?case using Suc by simp
qed

lemma after_download_multi:
  assumes "n < length (tasks s)" and "map_of (jobs s) (tid (tasks s ! n)) = Some j"
  shows "n < length (tasks (after_download n (Multi result) s))"
    and "pc (tasks (after_download n (Multi result) s) ! n) = AwaitPlaylistMsg (sort result)"
    and "tid (tasks (after_download n (Multi result) s) ! n) = tid (tasks s ! n)"
    and "map_of (jobs (after_download n (Multi result) s)) (tid (tasks s ! n))
          = Some (j\<lparr>status := Uploading,
                     file_name := Some (show_nat (length result) @ '' files''),
                     file_path := None, updated_at := clock s\<rparr>)"
    and "disk (after_download n (Multi result) s) = disk s"
    and "clock (after_download n (Multi result) s) = clock s"
    and "outbox (after_download n (Multi result) s)
          = outbox s @ [SendMessage (playlist_text (tid (tasks s ! n)) (length result))]"
  using assms by (simp_all add: after_download_def Let_def map_of_setJob tgSendMessage_def)

lemma demo_playlist_route: "route demo_cfg demo_playlist_url = Inr Spotdl"
  by (simp add: demo_playlist_url_def demo_cfg_def demo_parse_def route_def classify_def
        direct_regex_test_def direct_exts_def endsWith_def toLowerCase_def to_lower_char_def)

lemma demo_playlist_downloading_eq:
  "demo_playlist_downloading =
     \<lparr> jobs = [(''P'', demo_playlist_job)],
       running = 1, queue = [],
       tasks = [\<lparr>tid = ''P'', turl = demo_playlist_url, pc = AwaitDownload Spotdl [] []\<rparr>],
       immediates = 0, timers = [],
       disk = \<lparr>files = [track_b, track_a], undeletable = [track_a]\<rparr>,
       outbox = [SendMessage (start_text ''P'' demo_playlist_url),
                 Spawn Spotdl ''P'' demo_playlist_url], clock = 0 \<rparr>"
proof -
  have v: "isValidUrl demo_cfg demo_playlist_url"
    by (simp add: isValidUrl_def demo_cfg_def demo_parse_def demo_playlist_url_def)
  have t: "trim demo_playlist_url = demo_playlist_url" "demo_playlist_url \<noteq> []"
    by (simp_all add: trim_def is_space_def demo_playlist_url_def)
  have n: "track_a \<noteq> track_b" by (simp add: track_a_def track_b_def)
  have m: "MAX_CONCURRENT demo_cfg = 1" by (simp add: demo_cfg_def)
  show ?thesis
    using n by (simp add: m demo_playlist_downloading_def step_def post_jobs_def processQueue_def
        pipeline_defs init_def v t demo_playlist_route demo_fs_def demo_playlist_job_def)
qed

lemma demo_playlist_unprotected_eq:
  "demo_playlist_unprotected =
     \<lparr> jobs = [(''P'', demo_playlist_job)],
       running = 1, queue = [],
       tasks = [\<lparr>tid = ''P'', turl = demo_playlist_url, pc = AwaitDownload Spotdl [] []\<rparr>],
       immediates = 0, timers = [],
       disk = \<lparr>files = [track_b, track_a], undeletable = []\<rparr>,
       outbox = [SendMessage (start_text ''P'' demo_playlist_url),
                 Spawn Spotdl ''P'' demo_playlist_url], clock = 0 \<rparr>"
proof -
  have v: "isValidUrl demo_cfg demo_playlist_url"
    by (simp add: isValidUrl_def demo_cfg_def demo_parse_def demo_playlist_url_def)
  have t: "trim demo_playlist_url = demo_playlist_url" "demo_playlist_url \<noteq> []"
    by (simp_all add: trim_def is_space_def demo_playlist_url_def)
  have n: "track_a \<noteq> track_b" by (simp add: track_a_def track_b_def)
  have m: "MAX_CONCURRENT demo_cfg = 1" by (simp add: demo_cfg_def)
  show ?thesis
    using n by (simp add: m demo_playlist_unprotected_def step_def post_jobs_def processQueue_def
        pipeline_defs init_def v t demo_playlist_route demo_fs_def demo_playlist_job_def)
qed

lemma demo_playlist_close:
  "step demo_cfg (Close 0 (Some 0)) demo_playlist_downloading
     = after_download 0 (Multi [track_b, track_a]) demo_playlist_downloading"
proof -
  have r: "readdir_files \<lparr>files = [track_b, track_a], undeletable = [track_a]\<rparr> (job_dir demo_cfg ''P'')
      = [track_b, track_a]"
    by (simp add: readdir_files_def job_dir_def path_join_def demo_cfg_def track_a_def track_b_def)
  show ?thesis
    by (simp add: demo_playlist_downloading_eq step_def on_proc_close_def on_close_def r Let_def)
qed

lemma demo_tracks_sorted: "sort [track_b, track_a] = [track_a, track_b]"
  by (simp add: track_a_def track_b_def)

lemma demo_playlist_uploading_eq:
  "demo_playlist_uploading =
     \<lparr> jobs = [(''P'', demo_playlist_job\<lparr>status := Uploading, file_name := Some ''2 files''\<rparr>)],
       running = 1, queue = [],
       tasks = [\<lparr>tid = ''P'', turl = demo_playlist_url, pc = AwaitPlaylistMsg [track_a, track_b]\<rparr>],
       immediates = 0, timers = [],
       disk = \<lparr>files = [track_b, track_a], undeletable = [track_a]\<rparr>,
       outbox = [SendMessage (start_text ''P'' demo_playlist_url),
                 Spawn Spotdl ''P'' demo_playlist_url,
                 SendMessage (playlist_text ''P'' 2)], clock = 0 \<rparr>"
proof -
  have sh: "show_nat 2 = ''2''" by code_simp
  have two: "Suc (Suc 0) = 2" by simp
  show ?thesis
    unfolding demo_playlist_uploading_def demo_playlist_close
    by (simp add: two demo_playlist_downloading_eq after_download_def setJob_def tgSendMessage_def
        set_pc_def Let_def demo_tracks_sorted demo_playlist_job_def sh del: sort_key_simps)
qed

text \<open>
  C5, as stated, fails. A playlist job has produced two tracks, and the operating system
  refuses to remove the first (\<^verbatim>\<open>fs.unlinkSync\<close> throws, and the pipeline ignores
  it). After the first track's upload has succeeded and the second track's has started,
  the first track is still on disk; the job goes on to \<open>Done\<close> and leaves the file behind.
\<close>

theorem multi_file_delivery_counterexample:
  "sent_files (outbox (deliver demo_cfg 0 2 demo_playlist_uploading)) = [track_a, track_b]
   \<and> existsSync (disk (deliver demo_cfg 0 2 demo_playlist_uploading)) track_a
   \<and> map (\<lambda>(k, j). (k, status j)) (jobs (deliver demo_cfg 0 3 demo_playlist_uploading))
       = [(''P'', Done)]
   \<and> files (disk (deliver demo_cfg 0 3 demo_playlist_uploading)) = [track_a]"
proof -
  have n: "track_a \<noteq> track_b" by (simp add: track_a_def track_b_def)
  have 2: "deliver demo_cfg 0 2 demo_playlist_uploading
      = step demo_cfg (Settle 0 (Inr ())) (step demo_cfg (Settle 0 (Inr ())) demo_playlist_uploading)"
    by (simp add: deliver_def numeral_2_eq_2)
  have 3: "deliver demo_cfg 0 3 demo_playlist_uploading
      = step demo_cfg (Settle 0 (Inr ())) (deliver demo_cfg 0 2 demo_playlist_uploading)"
    using deliver_Suc [of demo_cfg 0 2 demo_playlist_uploading] by (simp add: numeral_3_eq_3 numeral_2_eq_2)
  have s2: "deliver demo_cfg 0 2 demo_playlist_uploading =
     \<lparr> jobs = [(''P'', demo_playlist_job\<lparr>status := Uploading, file_name := Some ''2 files''\<rparr>)],
       running = 1, queue = [],
       tasks = [\<lparr>tid = ''P'', turl = demo_playlist_url, pc = AwaitItem [track_a, track_b] 2 track_b []\<rparr>],
       immediates = 0, timers = [],
       disk = \<lparr>files = [track_b, track_a], undeletable = [track_a]\<rparr>,
       outbox = [SendMessage (start_text ''P'' demo_playlist_url),
                 Spawn Spotdl ''P'' demo_playlist_url,
                 SendMessage (playlist_text ''P'' 2),
                 SendFile track_a (item_caption ''P'' 1 2 track_a),
                 SendFile track_b (item_caption ''P'' 2 2 track_b)], clock = 0 \<rparr>"
    unfolding 2
    by (simp add: demo_playlist_uploading_eq step_def on_settle_def upload_items_def
        tgSendFileChecked_def set_pc_def try_unlink_def Let_def numeral_2_eq_2)
  have s3: "jobs (deliver demo_cfg 0 3 demo_playlist_uploading)
       = [(''P'', demo_playlist_job\<lparr>status := Done, file_name := Some ''2 files''\<rparr>)]"
     "files (disk (deliver demo_cfg 0 3 demo_playlist_uploading)) = [track_a]"
    unfolding 3 s2 using n
    by (simp_all add: step_def on_settle_def upload_items_def setJob_def tgSendMessage_def
        set_pc_def try_unlink_def Let_def demo_playlist_job_def)
  show ?thesis by (simp add: s2 s3 existsSync_def)
qed

text \<open>
  C5, amended: for every multi-file result the items are uploaded in sorted order (the
  sorted list is a rearrangement of the result), one at a time: after the playlist
  message and \<open>k\<close> uploads have succeeded, exactly the first \<open>k + 1\<close> items have been
  handed to the notifier, the job is \<open>Uploading\<close>, and the removal of each of the first
  \<open>k\<close> items has been attempted once, failures ignored, so each of them is gone from
  the disk unless the operating system refuses to remove it. If the upload awaited at
  that point fails instead, the job enters \<open>Error\<close> with the failure's message. After all
  uploads have succeeded every item has been handed over, the removal of every item has
  been attempted and the job is marked \<open>Done\<close>.
\<close>

theorem multi_file_delivery:
  assumes "n < length (tasks s)" and "map_of (jobs s) (tid (tasks s ! n)) = Some j"
    and "s0 = after_download n (Multi result) s" and "fls = sort result"
  shows "sorted fls \<and> mset fls = mset result
       \<and> (\<forall>k<length fls.
             sent_files (outbox (deliver cfg n (Suc k) s0)) = sent_files (outbox s) @ take (Suc k) fls
             \<and> disk (deliver cfg n (Suc k) s0) = unlink_all (take k fls) (disk s)
             \<and> (\<forall>f\<in>set (take k fls). f \<notin> set (undeletable (disk s))
                   \<longrightarrow> f \<notin> set (files (disk (deliver cfg n (Suc k) s0))))
             \<and> map_option status (map_of (jobs (deliver cfg n (Suc k) s0)) (tid (tasks s ! n)))
                 = Some Uploading
             \<and> (\<forall>e. map_option (\<lambda>r. (status r, error r))
                        (map_of (jobs (step cfg (Settle n (Inl e)) (deliver cfg n (Suc k) s0)))
                           (tid (tasks s ! n)))
                      = Some (Error, Some (catch_text e))
                    \<and> pc (tasks (step cfg (Settle n (Inl e)) (deliver cfg n (Suc k) s0)) ! n)
                        = AwaitFailMsg))
       \<and> sent_files (outbox (deliver cfg n (Suc (length fls)) s0)) = sent_files (outbox s) @ fls
       \<and> disk (deliver cfg n (Suc (length fls)) s0) = unlink_all fls (disk s)
       \<and> map_option status (map_of (jobs (deliver cfg n (Suc (length fls)) s0)) (tid (tasks s ! n)))
           = Some Done
       \<and> pc (tasks (deliver cfg n (Suc (length fls)) s0) ! n) = AwaitPlaylistDone"
proof -
  note a = after_download_multi [OF assms(1,2), of result, folded assms(3)]
  have a2: "pc (tasks s0 ! n) = AwaitPlaylistMsg fls" using a(2) assms(4) by simp
  have a4: "map_of (jobs s0) (tid (tasks s0 ! n))
          = Some (j\<lparr>status := Uploading,
                     file_name := Some (show_nat (length result) @ '' files''),
                     file_path := None, updated_at := clock s\<rparr>)"
    using a(3,4) by simp
  have 1: "sorted fls \<and> mset fls = mset result" by (simp add: assms(4))
  have 2: "sent_files (outbox (deliver cfg n (Suc k) s0)) = sent_files (outbox s) @ take (Suc k) fls
             \<and> disk (deliver cfg n (Suc k) s0) = unlink_all (take k fls) (disk s)
             \<and> (\<forall>f\<in>set (take k fls). f \<notin> set (undeletable (disk s))
                   \<longrightarrow> f \<notin> set (files (disk (deliver cfg n (Suc k) s0))))
             \<and> map_option status (map_of (jobs (deliver cfg n (Suc k) s0)) (tid (tasks s ! n)))
                 = Some Uploading
             \<and> (\<forall>e. map_option (\<lambda>r. (status r, error r))
                        (map_of (jobs (step cfg (Settle n (Inl e)) (deliver cfg n (Suc k) s0)))
                           (tid (tasks s ! n)))
                      = Some (Error, Some (catch_text e))
                    \<and> pc (tasks (step cfg (Settle n (Inl e)) (deliver cfg n (Suc k) s0)) ! n)
                        = AwaitFailMsg)"
    if k: "k < length fls" for k
  proof -
    note p = delivery_progress [OF a(1) a2 k, of cfg]
    have o: "sent_files (outbox (deliver cfg n (Suc k) s0)) = sent_files (outbox s) @ take (Suc k) fls"
      using p k by (simp add: a(7) sent_files_uploads del: upt_Suc)
    have d: "disk (deliver cfg n (Suc k) s0) = unlink_all (take k fls) (disk s)"
      using p by (simp add: a(5))
    have g: "\<forall>f\<in>set (take k fls). f \<notin> set (undeletable (disk s))
                   \<longrightarrow> f \<notin> set (files (disk (deliver cfg n (Suc k) s0)))"
      unfolding d using unlink_all_gone by blast
    have u: "map_option status (map_of (jobs (deliver cfg n (Suc k) s0)) (tid (tasks s ! n)))
                 = Some Uploading"
      using p a(4) by simp
    note f = delivery_failure [OF a(1) a2 a4 k, of cfg]
    have e: "map_option (\<lambda>r. (status r, error r))
                        (map_of (jobs (step cfg (Settle n (Inl e)) (deliver cfg n (Suc k) s0)))
                           (tid (tasks s ! n)))
                      = Some (Error, Some (catch_text e))
                    \<and> pc (tasks (step cfg (Settle n (Inl e)) (deliver cfg n (Suc k) s0)) ! n)
                        = AwaitFailMsg" for e
      using f [of e] by (simp add: a(3))
    show ?thesis using o d g u e by blast
  qed
  note c = delivery_complete [OF a(1) a2 a4, of cfg]
  have 3: "sent_files (outbox (deliver cfg n (Suc (length fls)) s0)) = sent_files (outbox s) @ fls"
    using c by (simp add: a(7) sent_files_uploads)
  have 4: "disk (deliver cfg n (Suc (length fls)) s0) = unlink_all fls (disk s)"
    using c by (simp add: a(5))
  have 5: "map_option status (map_of (jobs (deliver cfg n (Suc (length fls)) s0)) (tid (tasks s ! n)))
           = Some Done"
    using c by (simp add: a(3))
  have 6: "pc (tasks (deliver cfg n (Suc (length fls)) s0) ! n) = AwaitPlaylistDone"
    using c by simp
  show ?thesis using 1 2 3 4 5 6 by blast
qed

text \<open>C5, witness: the playlist of the counterexample, delivered in full, and with the
  second upload failing.\<close>

theorem multi_file_delivery_witness:
  "sorted [track_a, track_b]
   \<and> sent_files (outbox (deliver demo_cfg 0 2 demo_playlist_uploading)) = [track_a, track_b]
   \<and> map_option (\<lambda>r. (status r, error r))
        (map_of (jobs (step demo_cfg (Settle 0 (Inl tg_down)) (deliver demo_cfg 0 2 demo_playlist_uploading))) ''P'')
       = Some (Error, Some ''TG sendMessage failed: 502 Bad Gateway'')
   \<and> sent_files (outbox (deliver demo_cfg 0 3 demo_playlist_uploading)) = [track_a, track_b]
   \<and> files (disk (deliver demo_cfg 0 3 demo_playlist_uploading)) = [track_a]
   \<and> map_option status (map_of (jobs (deliver demo_cfg 0 3 demo_playlist_uploading)) ''P'') = Some Done
   \<and> track_a \<notin> set (files (disk (deliver demo_cfg 0 (Suc 1)
         (after_download 0 (Multi [track_b, track_a]) demo_playlist_unprotected))))"
proof -
  have h': "0 < length (tasks demo_playlist_unprotected)"
    "map_of (jobs demo_playlist_unprotected) (tid (tasks demo_playlist_unprotected ! 0)) = Some demo_playlist_job"
    by (simp_all add: demo_playlist_unprotected_eq)
  have l: "1 < length [track_a, track_b]" by simp
  note t' = multi_file_delivery [OF h' refl demo_tracks_sorted [symmetric], of demo_cfg,
      THEN conjunct2, THEN conjunct2, THEN conjunct1, rule_format, OF l,
      THEN conjunct2, THEN conjunct2, THEN conjunct1, rule_format, of track_a]
  have g: "track_a \<notin> set (files (disk (deliver demo_cfg 0 (Suc 1)
         (after_download 0 (Multi [track_b, track_a]) demo_playlist_unprotected))))"
    by (rule t') (simp_all add: demo_playlist_unprotected_eq)
  have h: "0 < length (tasks demo_playlist_downloading)"
    "map_of (jobs demo_playlist_downloading) (tid (tasks demo_playlist_downloading ! 0)) = Some demo_playlist_job"
    by (simp_all add: demo_playlist_downloading_eq)
  have s0: "demo_playlist_uploading = after_download 0 (Multi [track_b, track_a]) demo_playlist_downloading"
    by (simp add: demo_playlist_uploading_def demo_playlist_close)
  note t = multi_file_delivery [OF h s0 demo_tracks_sorted [symmetric], of demo_cfg]
  have f: "tid (tasks demo_playlist_downloading ! 0) = ''P''"
    "sent_files (outbox demo_playlist_downloading) = []"
    "disk demo_playlist_downloading = \<lparr>files = [track_b, track_a], undeletable = [track_a]\<rparr>"
    by (simp_all add: demo_playlist_downloading_eq)
  have n: "track_a \<noteq> track_b" by (simp add: track_a_def track_b_def)
  have u: "unlink_all [track_a, track_b] \<lparr>files = [track_b, track_a], undeletable = [track_a]\<rparr>
      = \<lparr>files = [track_a], undeletable = [track_a]\<rparr>"
    using n by (simp add: unlink_all_def try_unlink_def)
  have c: "catch_text tg_down = ''TG sendMessage failed: 502 Bad Gateway''"
    by (simp add: tg_down_def new_Error_def catch_text_def)
  from t have t1: "sorted [track_a, track_b]" by simp
  from t have t2: "\<forall>k<2. sent_files (outbox (deliver demo_cfg 0 (Suc k) demo_playlist_uploading))
       = take (Suc k) [track_a, track_b]
     \<and> (\<forall>e. map_option (\<lambda>r. (status r, error r))
            (map_of (jobs (step demo_cfg (Settle 0 (Inl e)) (deliver demo_cfg 0 (Suc k) demo_playlist_uploading))) ''P'')
           = Some (Error, Some (catch_text e)))"
    by (simp add: f)
  from t have t3: "sent_files (outbox (deliver demo_cfg 0 3 demo_playlist_uploading)) = [track_a, track_b]
     \<and> disk (deliver demo_cfg 0 3 demo_playlist_uploading)
         = unlink_all [track_a, track_b] \<lparr>files = [track_b, track_a], undeletable = [track_a]\<rparr>
     \<and> map_option status (map_of (jobs (deliver demo_cfg 0 3 demo_playlist_uploading)) ''P'') = Some Done"
    by (simp add: f numeral_3_eq_3)
  have t2': "sent_files (outbox (deliver demo_cfg 0 2 demo_playlist_uploading)) = [track_a, track_b]
     \<and> map_option (\<lambda>r. (status r, error r))
            (map_of (jobs (step demo_cfg (Settle 0 (Inl tg_down)) (deliver demo_cfg 0 2 demo_playlist_uploading))) ''P'')
           = Some (Error, Some (catch_text tg_down))"
    using t2 [rule_format, of 1] by (simp add: numeral_2_eq_2)
  show ?thesis using t1 t2' t3 g by (simp add: u c)
qed

section \<open>The shape of a job record at every point of its pipeline\<close>

lemma terminal_shape_fresh: "fresh_shape j \<Longrightarrow> terminal_shape j"
  by (simp add: fresh_shape_def terminal_shape_def)

lemma terminal_shape_pc: "pc_shape p j \<Longrightarrow> terminal_shape j"
  by (cases p) (auto simp: pc_shape_def terminal_shape_def)

lemma terminal_shape_final: "final_shape j \<Longrightarrow> terminal_shape j"
  by (auto simp: final_shape_def terminal_shape_def)

lemma pipe_inv_terminal_shape:
  assumes "pipe_inv s" and "map_of (jobs s) k = Some j"
  shows "terminal_shape j"
proof (cases "k \<in> set (queue s)")
  case True
  then show ?thesis using assms terminal_shape_fresh unfolding pipe_inv_def by fastforce
next
  case q: False
  show ?thesis
  proof (cases "k \<in> tid ` set (tasks s)")
    case True
    then obtain t where "t \<in> set (tasks s)" "tid t = k" by auto
    then show ?thesis using assms terminal_shape_pc unfolding pipe_inv_def by fastforce
  next
    case False
    then show ?thesis using q assms terminal_shape_final unfolding pipe_inv_def by blast
  qed
qed

lemma set_list_update_cases:
  assumes "t \<in> set (xs[n := v])"
  shows "t = v \<or> (\<exists>m. m \<noteq> n \<and> m < length xs \<and> t = xs ! m)"
proof -
  obtain m where m: "m < length xs" "xs[n := v] ! m = t"
    using assms by (auto simp: in_set_conv_nth)
  show ?thesis
  proof (cases "m = n")
    case True
    then show ?thesis using m by simp
  next
    case False
    then show ?thesis using m by auto
  qed
qed

lemma distinct_tids_nth:
  assumes "distinct (map tid ts)" and "m < length ts" and "n < length ts" and "m \<noteq> n"
  shows "tid (ts ! m) \<noteq> tid (ts ! n)"
  using assms by (metis length_map nth_eq_iff_index_eq nth_map)

lemma local_move:
  assumes inv: "pipe_inv s" and n: "n < length (tasks s)"
    and t: "tasks s' = (tasks s)[n := (tasks s ! n)\<lparr>pc := p'\<rparr>]"
    and q: "queue s' = queue s"
    and j: "map_of (jobs s') = (map_of (jobs s))(tid (tasks s ! n) \<mapsto> j')"
    and sh: "pc_shape p' j'"
  shows "pipe_inv s'"
proof -
  let ?i = "tid (tasks s ! n)"
  have "tasks s' = tasks (set_pc n p' s)" by (simp add: t set_pc_def)
  then have tids: "map tid (tasks s') = map tid (tasks s)" by simp
  have d: "distinct (queue s @ map tid (tasks s))" using inv by (simp add: pipe_inv_def)
  have "tasks s ! n \<in> set (tasks s)" using n by simp
  then have "?i \<in> tid ` set (tasks s)" by (rule imageI)
  then have iq: "?i \<notin> set (queue s)" using d by auto
  have 1: "distinct (queue s' @ map tid (tasks s'))" using d by (simp add: q tids)
  have 2: "\<forall>k\<in>set (queue s'). \<exists>j. map_of (jobs s') k = Some j \<and> fresh_shape j"
    using inv iq by (auto simp: pipe_inv_def q j)
  have 3: "\<exists>j. map_of (jobs s') (tid x) = Some j \<and> pc_shape (pc x) j" if x: "x \<in> set (tasks s')" for x
  proof -
    have "x = (tasks s ! n)\<lparr>pc := p'\<rparr>
        \<or> (\<exists>m. m \<noteq> n \<and> m < length (tasks s) \<and> x = tasks s ! m)"
      using x unfolding t by (rule set_list_update_cases)
    then consider "x = (tasks s ! n)\<lparr>pc := p'\<rparr>"
      | m where "m \<noteq> n" "m < length (tasks s)" "x = tasks s ! m"
      by auto
    then show ?thesis
    proof cases
      case 1
      then show ?thesis using sh by (simp add: j)
    next
      case 2
      have "tid x \<noteq> ?i" using distinct_tids_nth [of "tasks s" m n] d n 2 by simp
      moreover have "x \<in> set (tasks s)" using 2 by simp
      ultimately show ?thesis using inv by (auto simp: pipe_inv_def j)
    qed
  qed
  have 4: "final_shape jj" if "map_of (jobs s') k = Some jj" "k \<notin> set (queue s')"
      "k \<notin> tid ` set (tasks s')" for k jj
  proof -
    have "set (map tid (tasks s')) = set (map tid (tasks s))" by (simp only: tids)
    then have k: "k \<notin> tid ` set (tasks s)" using that(3) by simp
    then have "k \<noteq> ?i" using n by auto
    then have "map_of (jobs s) k = Some jj" using that(1) by (simp add: j)
    then show ?thesis using inv that(2) k by (auto simp: pipe_inv_def q)
  qed
  show ?thesis unfolding pipe_inv_def using 1 2 3 4 by blast
qed

lemma exit_move:
  assumes inv: "pipe_inv s" and n: "n < length (tasks s)"
    and t: "tasks s' = take n (tasks s) @ drop (Suc n) (tasks s)"
    and q: "queue s' = queue s"
    and j: "jobs s' = jobs s"
    and fin: "\<And>jj. pc_shape (pc (tasks s ! n)) jj \<Longrightarrow> final_shape jj"
  shows "pipe_inv s'"
proof -
  let ?i = "tid (tasks s ! n)"
  have split: "tasks s = take n (tasks s) @ tasks s ! n # drop (Suc n) (tasks s)"
    using n by (rule id_take_nth_drop)
  have d: "distinct (queue s @ map tid (tasks s))" using inv by (simp add: pipe_inv_def)
  have "distinct (queue s @ map tid (take n (tasks s) @ tasks s ! n # drop (Suc n) (tasks s)))"
    using d split by simp
  then have 1: "distinct (queue s' @ map tid (tasks s'))"
    by (auto simp: t q)
  have sub: "set (tasks s') \<subseteq> set (tasks s)"
    unfolding t using set_take_subset [of n "tasks s"] set_drop_subset [of "Suc n" "tasks s"] by auto
  have 2: "\<forall>k\<in>set (queue s'). \<exists>j. map_of (jobs s') k = Some j \<and> fresh_shape j"
    using inv by (simp add: pipe_inv_def q j)
  have 3: "\<forall>x\<in>set (tasks s'). \<exists>j. map_of (jobs s') (tid x) = Some j \<and> pc_shape (pc x) j"
    using inv sub by (auto simp: pipe_inv_def j)
  have 4: "final_shape jj" if "map_of (jobs s') k = Some jj" "k \<notin> set (queue s')"
      "k \<notin> tid ` set (tasks s')" for k jj
  proof (cases "k = ?i")
    case True
    have "tasks s ! n \<in> set (tasks s)" using n by simp
    then obtain j0 where "map_of (jobs s) ?i = Some j0" "pc_shape (pc (tasks s ! n)) j0"
      using inv unfolding pipe_inv_def by blast
    then show ?thesis using that(1) True fin by (simp add: j)
  next
    case False
    have "set (tasks s) = set (take n (tasks s) @ tasks s ! n # drop (Suc n) (tasks s))"
      using split by simp
    then have "set (tasks s) = insert (tasks s ! n) (set (tasks s'))"
      by (simp add: t)
    then have "k \<notin> tid ` set (tasks s)" using that(3) False by auto
    then show ?thesis using inv that(1,2) by (auto simp: pipe_inv_def q j)
  qed
  show ?thesis unfolding pipe_inv_def using 1 2 3 4 by blast
qed


lemma map_of_setJob_fun:
  "map_of (jobs s) i = Some j \<Longrightarrow>
     map_of (jobs (setJob i f s)) = (map_of (jobs s))(i \<mapsto> (f j)\<lparr>updated_at := clock s\<rparr>)"
  by (rule ext) (simp add: map_of_setJob)

lemma map_of_pushLog_fun:
  "map_of (jobs s) i = Some j \<Longrightarrow>
     map_of (jobs (pushLog i txt s))
       = (map_of (jobs s))(i \<mapsto> j\<lparr>log := log j @ txt, updated_at := clock s\<rparr>)"
  by (rule ext) (simp add: map_of_pushLog)

lemma pipe_inv_task:
  assumes "pipe_inv s" and "n < length (tasks s)"
  obtains j where "map_of (jobs s) (tid (tasks s ! n)) = Some j" "pc_shape (pc (tasks s ! n)) j"
proof -
  have "tasks s ! n \<in> set (tasks s)" using assms(2) by simp
  then show ?thesis using assms(1) that unfolding pipe_inv_def by blast
qed

lemma pipe_inv_cong:
  assumes "jobs s' = jobs s" and "tasks s' = tasks s" and "queue s' = queue s"
  shows "pipe_inv s' = pipe_inv s"
  using assms by (simp add: pipe_inv_def)

lemma pipe_inv_catch_block:
  assumes "pipe_inv s" and "n < length (tasks s)"
  shows "pipe_inv (catch_block n e s)"
proof -
  obtain j where j: "map_of (jobs s) (tid (tasks s ! n)) = Some j"
    using assms by (rule pipe_inv_task)
  let ?j' = "j\<lparr>status := Error, error := Some (catch_text e), updated_at := clock s\<rparr>"
  show ?thesis
  proof (rule local_move [OF assms, where p' = AwaitFailMsg and j' = ?j'])
    show "tasks (catch_block n e s) = (tasks s)[n := (tasks s ! n)\<lparr>pc := AwaitFailMsg\<rparr>]"
      by (simp add: tasks_catch_block set_pc_def)
    show "queue (catch_block n e s) = queue s" by simp
    show "map_of (jobs (catch_block n e s)) = (map_of (jobs s))(tid (tasks s ! n) \<mapsto> ?j')"
      by (simp add: jobs_catch_block map_of_setJob_fun [OF j])
    show "pc_shape AwaitFailMsg ?j'" by (simp add: pc_shape_def)
  qed
qed

lemma pipe_inv_upload_items:
  assumes "pipe_inv s" and "n < length (tasks s)"
    and "pc_shape (pc (tasks s ! n)) = pc_shape (AwaitPlaylistMsg fls0)"
  shows "pipe_inv (upload_items n fls sent rest s)"
proof -
  obtain j where j: "map_of (jobs s) (tid (tasks s ! n)) = Some j"
    and sh: "pc_shape (AwaitPlaylistMsg fls0) j"
    using assms by (metis pipe_inv_task)
  show ?thesis
  proof (cases rest)
    case Nil
    let ?j' = "j\<lparr>status := Done, updated_at := clock s\<rparr>"
    show ?thesis
    proof (rule local_move [OF assms(1,2), where p' = AwaitPlaylistDone and j' = ?j'])
      show "tasks (upload_items n fls sent rest s) = (tasks s)[n := (tasks s ! n)\<lparr>pc := AwaitPlaylistDone\<rparr>]"
        by (simp add: Nil upload_items_def Let_def set_pc_def)
      show "queue (upload_items n fls sent rest s) = queue s" by simp
      show "map_of (jobs (upload_items n fls sent rest s)) = (map_of (jobs s))(tid (tasks s ! n) \<mapsto> ?j')"
        by (simp add: Nil upload_items_def Let_def map_of_setJob_fun [OF j])
      show "pc_shape AwaitPlaylistDone ?j'" using sh by (simp add: pc_shape_def)
    qed
  next
    case (Cons fp rest')
    show ?thesis
    proof (rule local_move [OF assms(1,2), where p' = "AwaitItem fls (Suc sent) fp rest'" and j' = j])
      show "tasks (upload_items n fls sent rest s)
          = (tasks s)[n := (tasks s ! n)\<lparr>pc := AwaitItem fls (Suc sent) fp rest'\<rparr>]"
        by (simp add: Cons upload_items_def Let_def set_pc_def)
      show "queue (upload_items n fls sent rest s) = queue s" by simp
      show "map_of (jobs (upload_items n fls sent rest s)) = (map_of (jobs s))(tid (tasks s ! n) \<mapsto> j)"
        using j by (simp add: Cons upload_items_def Let_def map_upd_triv)
      show "pc_shape (AwaitItem fls (Suc sent) fp rest') j" using sh by (simp add: pc_shape_def)
    qed
  qed
qed

lemma pipe_inv_after_download:
  assumes "pipe_inv s" and "n < length (tasks s)"
    and "pc (tasks s ! n) = AwaitDownload g fp err"
  shows "pipe_inv (after_download n res s)"
proof -
  obtain j where j: "map_of (jobs s) (tid (tasks s ! n)) = Some j"
    and sh: "pc_shape (AwaitDownload g fp err) j"
    using assms by (metis pipe_inv_task)
  let ?i = "tid (tasks s ! n)"
  let ?s1 = "setJob ?i (\<lambda>r. r\<lparr>status := Uploading\<rparr>) s"
  have j1: "map_of (jobs ?s1) ?i = Some (j\<lparr>status := Uploading, updated_at := clock s\<rparr>)"
    by (simp add: map_of_setJob j)
  have m1: "map_of (jobs ?s1) = (map_of (jobs s))(?i \<mapsto> j\<lparr>status := Uploading, updated_at := clock s\<rparr>)"
    by (rule map_of_setJob_fun [OF j])
  show ?thesis
  proof (cases res)
    case (Single filePath)
    let ?j' = "j\<lparr>status := Uploading, file_path := Some filePath,
                  file_name := Some (basename filePath), updated_at := clock s\<rparr>"
    show ?thesis
    proof (rule local_move [OF assms(1,2), where p' = "AwaitSingleUpload filePath" and j' = ?j'])
      show "tasks (after_download n res s) = (tasks s)[n := (tasks s ! n)\<lparr>pc := AwaitSingleUpload filePath\<rparr>]"
        by (simp add: Single after_download_def Let_def set_pc_def)
      show "queue (after_download n res s) = queue s" by simp
      show "map_of (jobs (after_download n res s)) = (map_of (jobs s))(?i \<mapsto> ?j')"
        by (simp add: Single after_download_def Let_def map_of_setJob_fun [OF j1] m1)
      show "pc_shape (AwaitSingleUpload filePath) ?j'" using sh by (simp add: pc_shape_def)
    qed
  next
    case (Multi result)
    let ?j' = "j\<lparr>status := Uploading,
                  file_name := Some (show_nat (length result) @ '' files''),
                  file_path := None, updated_at := clock s\<rparr>"
    show ?thesis
    proof (rule local_move [OF assms(1,2), where p' = "AwaitPlaylistMsg (sort result)" and j' = ?j'])
      show "tasks (after_download n res s) = (tasks s)[n := (tasks s ! n)\<lparr>pc := AwaitPlaylistMsg (sort result)\<rparr>]"
        by (simp add: Multi after_download_def Let_def set_pc_def)
      show "queue (after_download n res s) = queue s" by simp
      show "map_of (jobs (after_download n res s)) = (map_of (jobs s))(?i \<mapsto> ?j')"
        by (simp add: Multi after_download_def Let_def map_of_setJob_fun [OF j1] m1)
      show "pc_shape (AwaitPlaylistMsg (sort result)) ?j'"
        using sh by (auto simp: pc_shape_def is_summary_def)
    qed
  qed
qed

lemma pipe_inv_runDownload:
  assumes "pipe_inv s" and "n < length (tasks s)" and "pc (tasks s ! n) = AwaitStart"
  shows "pipe_inv (runDownload cfg n s)"
proof (cases "route cfg (turl (tasks s ! n))")
  case (Inl e)
  then show ?thesis using pipe_inv_catch_block [OF assms(1,2)] by (simp add: runDownload_def Let_def)
next
  case (Inr g)
  obtain j where j: "map_of (jobs s) (tid (tasks s ! n)) = Some j"
    and sh: "pc_shape AwaitStart j"
    using assms by (metis pipe_inv_task)
  show ?thesis
  proof (rule local_move [OF assms(1,2), where p' = "AwaitDownload g [] []" and j' = j])
    show "tasks (runDownload cfg n s) = (tasks s)[n := (tasks s ! n)\<lparr>pc := AwaitDownload g [] []\<rparr>]"
      by (simp add: Inr runDownload_def Let_def set_pc_def)
    show "queue (runDownload cfg n s) = queue s" by simp
    show "map_of (jobs (runDownload cfg n s)) = (map_of (jobs s))(tid (tasks s ! n) \<mapsto> j)"
      using j by (simp add: Inr runDownload_def Let_def map_upd_triv)
    show "pc_shape (AwaitDownload g [] []) j" using sh by (simp add: pc_shape_def)
  qed
qed

lemma pipe_inv_finally_block:
  assumes "pipe_inv s" and "n < length (tasks s)" and "\<not> pre_terminal (pc (tasks s ! n))"
  shows "pipe_inv (finally_block n s)"
proof (rule exit_move [OF assms(1,2)])
  show "tasks (finally_block n s) = take n (tasks s) @ drop (Suc n) (tasks s)"
    by (simp add: finally_block_def)
  show "queue (finally_block n s) = queue s" by simp
  show "jobs (finally_block n s) = jobs s" by simp
  show "final_shape jj" if "pc_shape (pc (tasks s ! n)) jj" for jj
    using that assms(3) by (cases "pc (tasks s ! n)") (auto simp: pc_shape_def final_shape_def pre_terminal_def)
qed

lemma pipe_inv_update [simp]:
  "pipe_inv (s\<lparr>disk := d\<rparr>) = pipe_inv s"
  "pipe_inv (s\<lparr>timers := ts\<rparr>) = pipe_inv s"
  "pipe_inv (s\<lparr>immediates := m\<rparr>) = pipe_inv s"
  "pipe_inv (s\<lparr>clock := c\<rparr>) = pipe_inv s"
  by (simp_all add: pipe_inv_def)


lemma pipe_inv_on_settle:
  assumes "pipe_inv s" and "n < length (tasks s)"
  shows "pipe_inv (on_settle cfg n r s)"
proof (cases "pc (tasks s ! n)")
  case AwaitStart
  then show ?thesis using assms
    by (cases r) (simp_all add: on_settle_def Let_def pipe_inv_catch_block pipe_inv_runDownload)
next
  case (AwaitDownload g fp err)
  then show ?thesis using assms by (simp add: on_settle_def Let_def)
next
  case (AwaitPlaylistMsg fls)
  then have "pc_shape (pc (tasks s ! n)) = pc_shape (AwaitPlaylistMsg fls)" by simp
  then show ?thesis using assms AwaitPlaylistMsg
    by (cases r) (simp_all add: on_settle_def Let_def pipe_inv_catch_block pipe_inv_upload_items)
next
  case (AwaitItem fls sent fp rest)
  then have "pc_shape (pc (tasks s ! n)) = pc_shape (AwaitPlaylistMsg fls)"
    by (simp add: pc_shape_def fun_eq_iff)
  then have "pipe_inv (upload_items n fls sent rest (s\<lparr>disk := try_unlink fp (disk s)\<rparr>))"
    using assms pipe_inv_upload_items [of "s\<lparr>disk := try_unlink fp (disk s)\<rparr>" n fls fls sent rest]
    by simp
  then show ?thesis using assms AwaitItem
    by (cases r) (simp_all add: on_settle_def Let_def pipe_inv_catch_block)
next
  case AwaitPlaylistDone
  then show ?thesis using assms
    by (cases r) (simp_all add: on_settle_def Let_def pipe_inv_catch_block pipe_inv_finally_block
        pre_terminal_def)
next
  case (AwaitSingleUpload filePath)
  obtain j where j: "map_of (jobs s) (tid (tasks s ! n)) = Some j"
    and sh: "pc_shape (AwaitSingleUpload filePath) j"
    using assms AwaitSingleUpload by (metis pipe_inv_task)
  let ?j' = "j\<lparr>status := Done, updated_at := clock s\<rparr>"
  let ?s' = "set_pc n AwaitSingleDone
             (tgSendMessage (single_done_text (tid (tasks s ! n)))
               (setJob (tid (tasks s ! n)) (\<lambda>r. r\<lparr>status := Done\<rparr>) s))"
  have "pipe_inv ?s'"
  proof (rule local_move [OF assms, where p' = AwaitSingleDone and j' = ?j'])
    show "tasks ?s' = (tasks s)[n := (tasks s ! n)\<lparr>pc := AwaitSingleDone\<rparr>]"
      by (simp add: set_pc_def)
    show "queue ?s' = queue s" by simp
    show "map_of (jobs ?s') = (map_of (jobs s))(tid (tasks s ! n) \<mapsto> ?j')"
      by (simp add: map_of_setJob_fun [OF j])
    show "pc_shape AwaitSingleDone ?j'" using sh by (simp add: pc_shape_def)
  qed
  then show ?thesis using assms AwaitSingleUpload
    by (cases r) (simp_all add: on_settle_def Let_def pipe_inv_catch_block)
next
  case AwaitSingleDone
  have "pipe_inv (finally_block n (s\<lparr>timers := ts\<rparr>))" for ts
    using assms AwaitSingleDone pipe_inv_finally_block [of "s\<lparr>timers := ts\<rparr>" n]
    by (simp add: pre_terminal_def)
  then show ?thesis using assms AwaitSingleDone
    by (cases r) (simp_all add: on_settle_def Let_def pipe_inv_catch_block)
next
  case AwaitFailMsg
  then show ?thesis using assms
    by (simp add: on_settle_def Let_def pipe_inv_finally_block pre_terminal_def)
qed

lemma pipe_inv_on_data:
  assumes "pipe_inv s" and "n < length (tasks s)"
  shows "pipe_inv (on_data cfg b n chunk s)"
proof (cases "pc (tasks s ! n)")
  case (AwaitDownload g fp err)
  obtain j where j: "map_of (jobs s) (tid (tasks s ! n)) = Some j"
    and sh: "pc_shape (AwaitDownload g fp err) j"
    using assms AwaitDownload by (metis pipe_inv_task)
  let ?p = "if b then AwaitDownload g fp (on_stderr g chunk err)
            else AwaitDownload g (on_stdout cfg g chunk fp) err"
  let ?j' = "j\<lparr>log := log j @ chunk, updated_at := clock s\<rparr>"
  have eq: "on_data cfg b n chunk s = set_pc n ?p (pushLog (tid (tasks s ! n)) chunk s)"
    using AwaitDownload by (simp add: on_data_def Let_def)
  show ?thesis
  proof (rule local_move [OF assms, where p' = ?p and j' = ?j'])
    show "tasks (on_data cfg b n chunk s) = (tasks s)[n := (tasks s ! n)\<lparr>pc := ?p\<rparr>]"
      by (simp add: eq set_pc_def)
    show "queue (on_data cfg b n chunk s) = queue s" by simp
    show "map_of (jobs (on_data cfg b n chunk s)) = (map_of (jobs s))(tid (tasks s ! n) \<mapsto> ?j')"
      by (simp add: eq map_of_pushLog_fun [OF j])
    show "pc_shape ?p ?j'" using sh by (simp add: pc_shape_def)
  qed
qed (use assms in \<open>simp_all add: on_data_def Let_def\<close>)

lemma pipe_inv_on_proc_error:
  assumes "pipe_inv s" and "n < length (tasks s)"
  shows "pipe_inv (on_proc_error n e s)"
  using assms
  by (cases "pc (tasks s ! n)") (simp_all add: on_proc_error_def pipe_inv_catch_block)

lemma pipe_inv_on_proc_close:
  assumes "pipe_inv s" and "n < length (tasks s)"
  shows "pipe_inv (on_proc_close cfg n code s)"
proof (cases "pc (tasks s ! n)")
  case (AwaitDownload g fp err)
  then show ?thesis
    using assms pipe_inv_after_download [OF assms AwaitDownload]
    by (cases "on_close cfg g (tid (tasks s ! n)) code fp err (disk s)")
      (simp_all add: on_proc_close_def Let_def pipe_inv_catch_block)
qed (use assms in \<open>simp_all add: on_proc_close_def Let_def\<close>)

lemma pipe_inv_processQueue:
  assumes "pipe_inv s"
  shows "pipe_inv (processQueue cfg s)"
proof (cases "MAX_CONCURRENT cfg \<le> running s")
  case True
  then show ?thesis using assms by (simp add: processQueue_def)
next
  case below: False
  show ?thesis
  proof (cases "queue s")
    case Nil
    then show ?thesis using assms below by (simp add: processQueue_def)
  next
    case (Cons i rest)
    then obtain j where j: "map_of (jobs s) i = Some j" and fr: "fresh_shape j"
      using assms unfolding pipe_inv_def by fastforce
    let ?j' = "j\<lparr>status := Downloading, updated_at := clock s\<rparr>"
    let ?t = "\<lparr>tid = i, turl = url j, pc = AwaitStart\<rparr>"
    let ?s' = "processQueue cfg s"
    have q: "queue ?s' = rest"
      and t: "tasks ?s' = tasks s @ [?t]"
      and m: "map_of (jobs ?s') = (map_of (jobs s))(i \<mapsto> ?j')"
      using below Cons j
      by (simp_all add: processQueue_def Let_def tgSendMessage_def map_of_setJob fun_eq_iff)
    have d: "distinct ((i # rest) @ map tid (tasks s))"
      using assms Cons by (simp add: pipe_inv_def)
    have 1: "distinct (queue ?s' @ map tid (tasks ?s'))" using d by (auto simp: q t)
    have 2: "\<forall>k\<in>set (queue ?s'). \<exists>jj. map_of (jobs ?s') k = Some jj \<and> fresh_shape jj"
      using assms d Cons by (auto simp: pipe_inv_def q m)
    have 3: "\<forall>x\<in>set (tasks ?s'). \<exists>jj. map_of (jobs ?s') (tid x) = Some jj \<and> pc_shape (pc x) jj"
    proof
      fix x assume "x \<in> set (tasks ?s')"
      then consider "x = ?t" | "x \<in> set (tasks s)" by (auto simp: t)
      then show "\<exists>jj. map_of (jobs ?s') (tid x) = Some jj \<and> pc_shape (pc x) jj"
      proof cases
        case 1
        then show ?thesis using fr by (simp add: m pc_shape_def fresh_shape_def)
      next
        case 2
        then have "tid x \<noteq> i" using d by auto
        then show ?thesis using assms 2 by (auto simp: pipe_inv_def m)
      qed
    qed
    have 4: "\<forall>k jj. map_of (jobs ?s') k = Some jj \<longrightarrow> k \<notin> set (queue ?s')
             \<longrightarrow> k \<notin> tid ` set (tasks ?s') \<longrightarrow> final_shape jj"
      using assms Cons by (auto simp: pipe_inv_def q t m)
    show ?thesis unfolding pipe_inv_def using 1 2 3 4 by blast
  qed
qed

lemma pipe_inv_post_jobs:
  assumes "pipe_inv s" and "nid \<notin> fst ` set (jobs s)"
  shows "pipe_inv (snd (post_jobs cfg body_url nid s))"
proof (cases "submitted_url body_url = [] \<or> \<not> isValidUrl cfg (submitted_url body_url)")
  case True
  then have "snd (post_jobs cfg body_url nid s) = s"
    by (auto simp: post_jobs_def Let_def submitted_url_def)
  then show ?thesis using assms by simp
next
  case False
  define rec where "rec = \<lparr> job_id = nid, url = submitted_url body_url, status = Queued,
      created_at = clock s, updated_at = clock s, file_path = None, file_name = None,
      error = None, log = [] \<rparr>"
  let ?s' = "snd (post_jobs cfg body_url nid s)"
  have rec: "fresh_shape rec" by (simp add: rec_def fresh_shape_def)
  have eq: "?s' = s\<lparr>jobs := AList.update nid rec (jobs s), queue := queue s @ [nid],
           immediates := Suc (immediates s)\<rparr>"
    using False by (simp add: post_jobs_def Let_def submitted_url_def rec_def)
  have q: "queue ?s' = queue s @ [nid]" and t: "tasks ?s' = tasks s"
    and m: "map_of (jobs ?s') = (map_of (jobs s))(nid \<mapsto> rec)"
    by (simp_all add: eq update_conv')
  have none: "map_of (jobs s) nid = None" using assms(2) by (simp add: map_of_eq_None_iff)
  have nq: "nid \<notin> set (queue s)" using assms(1) none unfolding pipe_inv_def by fastforce
  have nt: "nid \<notin> tid ` set (tasks s)" using assms(1) none unfolding pipe_inv_def by fastforce
  have d: "distinct (queue s @ map tid (tasks s))" using assms(1) by (simp add: pipe_inv_def)
  have 1: "distinct (queue ?s' @ map tid (tasks ?s'))" using d nq nt by (auto simp: q t)
  have 2: "\<forall>k\<in>set (queue ?s'). \<exists>jj. map_of (jobs ?s') k = Some jj \<and> fresh_shape jj"
    using assms(1) rec by (auto simp: pipe_inv_def q m)
  have 3: "\<forall>x\<in>set (tasks ?s'). \<exists>jj. map_of (jobs ?s') (tid x) = Some jj \<and> pc_shape (pc x) jj"
    using assms(1) nt by (auto simp: pipe_inv_def t m)
  have 4: "\<forall>k jj. map_of (jobs ?s') k = Some jj \<longrightarrow> k \<notin> set (queue ?s')
             \<longrightarrow> k \<notin> tid ` set (tasks ?s') \<longrightarrow> final_shape jj"
    using assms(1) by (auto simp: pipe_inv_def q t m)
  show ?thesis unfolding pipe_inv_def using 1 2 3 4 by blast
qed

lemma pipe_inv_step:
  assumes "pipe_inv s" and "case ev of Post body_url nid \<Rightarrow> nid \<notin> fst ` set (jobs s) | _ \<Rightarrow> True"
  shows "pipe_inv (step cfg ev s)"
proof (cases ev)
  case (Post body_url nid)
  then show ?thesis using assms pipe_inv_post_jobs by (simp add: step_def)
next
  case (Get i)
  then show ?thesis using assms(1) by (simp add: step_def get_job_def split: option.splits)
next
  case Immediate
  have "pipe_inv (s\<lparr>immediates := immediates s - 1\<rparr>)" using assms(1) by simp
  then show ?thesis using Immediate assms(1) pipe_inv_processQueue by (simp add: step_def)
next
  case (Settle n r)
  then show ?thesis using assms(1) pipe_inv_on_settle by (simp add: step_def)
next
  case (Stdout n chunk)
  then show ?thesis using assms(1) pipe_inv_on_data by (simp add: step_def)
next
  case (Stderr n chunk)
  then show ?thesis using assms(1) pipe_inv_on_data by (simp add: step_def)
next
  case (ProcError n e)
  then show ?thesis using assms(1) pipe_inv_on_proc_error by (simp add: step_def)
next
  case (Close n code)
  then show ?thesis using assms(1) pipe_inv_on_proc_close by (simp add: step_def)
next
  case (Timeout k)
  have "pipe_inv (cleanup_fire i (s\<lparr>timers := ts\<rparr>))" for i ts
    using assms(1) pipe_inv_cong [of "cleanup_fire i (s\<lparr>timers := ts\<rparr>)" s]
    by (simp add: cleanup_fire_def split: option.splits)
  then show ?thesis using Timeout assms(1) by (simp add: step_def)
next
  case (FsWrite p)
  then show ?thesis using assms(1) by (simp add: step_def)
next
  case (FsRemove p)
  then show ?thesis using assms(1) by (simp add: step_def)
next
  case (FsProtect p)
  then show ?thesis using assms(1) by (simp add: step_def)
next
  case Tick
  then show ?thesis using assms(1) by (simp add: step_def)
qed

lemma pipe_inv_run: "pipe_inv s \<Longrightarrow> fresh_ids cfg evs s \<Longrightarrow> pipe_inv (run cfg evs s)"
  by (induction evs arbitrary: s) (simp_all add: pipe_inv_step)

lemma pipe_inv_init: "pipe_inv (init d)"
  by (simp add: pipe_inv_def init_def)

text \<open>
  C2, amended: in every state reached from the initial state with fresh ids, a job in
  \<open>Done\<close> has exactly one of the three outcomes, and it is not the failure: \<open>error\<close> is
  unset and either \<open>file_path\<close> is set or \<open>file_name\<close> is the item-count summary with
  \<open>file_path\<close> null. A job in \<open>Error\<close> has \<open>error\<close> set; nothing is said of its
  \<open>file_path\<close> and \<open>file_name\<close>, which keep what the pipeline recorded before the
  failure.
\<close>

theorem terminal_state_shape:
  assumes "fresh_ids cfg evs (init d)" and "s = run cfg evs (init d)"
    and "map_of (jobs s) k = Some j"
  shows "(status j = Done \<longrightarrow>
            exactly_one [single_file_success j, multi_file_success j, failure j] \<and> \<not> failure j)
       \<and> (status j = Error \<longrightarrow> failure j)"
proof -
  have "pipe_inv s" using assms(1,2) pipe_inv_run [OF pipe_inv_init] by simp
  then have "terminal_shape j" using assms(3) by (rule pipe_inv_terminal_shape)
  then show ?thesis
    by (auto simp: terminal_shape_def exactly_one_def single_file_success_def
        multi_file_success_def failure_def)
qed

lemma demo_single_events_run: "run demo_cfg demo_single_events (init demo_fs) = demo_single_done"
  by (simp add: demo_single_events_def demo_single_done_def demo_single_uploading_def
      demo_started_def)

lemma demo_single_events_fresh:
  "fresh_ids demo_cfg (demo_single_events @ [Settle 0 (Inl tg_down)]) (init demo_fs)"
  "fresh_ids demo_cfg demo_single_events (init demo_fs)"
  by (simp_all add: demo_single_events_def init_def)

text \<open>
  C2, as stated, fails. A direct download has produced its file, so \<open>file_path\<close> is set,
  and the upload of the file is rejected: the job enters \<open>Error\<close> with \<open>error\<close> set and
  \<open>file_path\<close> still set, two of the three outcomes at once. In the same way a playlist
  job whose first upload is rejected is in \<open>Error\<close> with \<open>error\<close> set and the item-count
  summary still in \<open>file_name\<close>.
\<close>

theorem terminal_state_counterexample:
  "map_of (jobs (step demo_cfg (Settle 0 (Inl tg_down)) demo_single_uploading)) ''A''
     = Some (demo_job\<lparr>status := Error, error := Some ''TG sendMessage failed: 502 Bad Gateway''\<rparr>)
   \<and> single_file_success
        (demo_job\<lparr>status := Error, error := Some ''TG sendMessage failed: 502 Bad Gateway''\<rparr>)
   \<and> failure (demo_job\<lparr>status := Error, error := Some ''TG sendMessage failed: 502 Bad Gateway''\<rparr>)
   \<and> \<not> exactly_one
        [single_file_success
           (demo_job\<lparr>status := Error, error := Some ''TG sendMessage failed: 502 Bad Gateway''\<rparr>),
         multi_file_success
           (demo_job\<lparr>status := Error, error := Some ''TG sendMessage failed: 502 Bad Gateway''\<rparr>),
         failure
           (demo_job\<lparr>status := Error, error := Some ''TG sendMessage failed: 502 Bad Gateway''\<rparr>)]
   \<and> map_of (jobs (step demo_cfg (Settle 0 (Inl tg_down)) demo_playlist_uploading)) ''P''
       = Some (demo_playlist_job\<lparr>status := Error, file_name := Some ''2 files'',
                 error := Some ''TG sendMessage failed: 502 Bad Gateway''\<rparr>)
   \<and> multi_file_success
        (demo_playlist_job\<lparr>status := Error, file_name := Some ''2 files'',
           error := Some ''TG sendMessage failed: 502 Bad Gateway''\<rparr>)
   \<and> failure
        (demo_playlist_job\<lparr>status := Error, file_name := Some ''2 files'',
           error := Some ''TG sendMessage failed: 502 Bad Gateway''\<rparr>)"
proof -
  have sh: "show_nat 2 @ '' files'' = ''2 files''" by code_simp
  have su: "is_summary (Some ''2 files'')"
    unfolding is_summary_def using sh by (intro exI [of _ 2]) simp
  have c: "catch_text tg_down = ''TG sendMessage failed: 502 Bad Gateway''"
    by (simp add: tg_down_def new_Error_def catch_text_def)
  have 1: "map_of (jobs (step demo_cfg (Settle 0 (Inl tg_down)) demo_single_uploading)) ''A''
     = Some (demo_job\<lparr>status := Error, error := Some ''TG sendMessage failed: 502 Bad Gateway''\<rparr>)"
    by (simp add: demo_single_uploading_eq step_def pipeline_defs c demo_job_def)
  have 2: "map_of (jobs (step demo_cfg (Settle 0 (Inl tg_down)) demo_playlist_uploading)) ''P''
       = Some (demo_playlist_job\<lparr>status := Error, file_name := Some ''2 files'',
                 error := Some ''TG sendMessage failed: 502 Bad Gateway''\<rparr>)"
    by (simp add: demo_playlist_uploading_eq step_def pipeline_defs c demo_playlist_job_def)
  show ?thesis
    unfolding 1 2 using su
    by (simp add: single_file_success_def multi_file_success_def failure_def exactly_one_def
        demo_job_def demo_playlist_job_def)
qed

text \<open>C2, witness: a direct download delivered in full (the job is \<open>Done\<close> with
  \<open>file_path\<close> set and no error) and the same run with the completion message rejected
  (the job is in \<open>Error\<close> with \<open>error\<close> set).\<close>

theorem terminal_state_shape_witness:
  "fresh_ids demo_cfg demo_single_events (init demo_fs)
   \<and> map_of (jobs (run demo_cfg demo_single_events (init demo_fs))) ''A''
       = Some (demo_job\<lparr>status := Done\<rparr>)
   \<and> exactly_one [single_file_success (demo_job\<lparr>status := Done\<rparr>),
                   multi_file_success (demo_job\<lparr>status := Done\<rparr>),
                   failure (demo_job\<lparr>status := Done\<rparr>)]
   \<and> \<not> failure (demo_job\<lparr>status := Done\<rparr>)
   \<and> map_of (jobs (run demo_cfg (demo_single_events @ [Settle 0 (Inl tg_down)]) (init demo_fs))) ''A''
       = Some (demo_job\<lparr>status := Error, error := Some ''TG sendMessage failed: 502 Bad Gateway''\<rparr>)
   \<and> failure (demo_job\<lparr>status := Error, error := Some ''TG sendMessage failed: 502 Bad Gateway''\<rparr>)"
proof -
  have c: "catch_text tg_down = ''TG sendMessage failed: 502 Bad Gateway''"
    by (simp add: tg_down_def new_Error_def catch_text_def)
  have j1: "map_of (jobs (run demo_cfg demo_single_events (init demo_fs))) ''A''
       = Some (demo_job\<lparr>status := Done\<rparr>)"
    by (simp add: demo_single_events_run demo_single_done_eq)
  have j2: "map_of (jobs (run demo_cfg (demo_single_events @ [Settle 0 (Inl tg_down)]) (init demo_fs))) ''A''
       = Some (demo_job\<lparr>status := Error, error := Some ''TG sendMessage failed: 502 Bad Gateway''\<rparr>)"
    by (simp add: run_snoc demo_single_events_run demo_single_done_eq step_def pipeline_defs c
        demo_job_def)
  note t1 = terminal_state_shape [OF demo_single_events_fresh(2) refl j1]
  note t2 = terminal_state_shape [OF demo_single_events_fresh(1) refl j2]
  have a: "exactly_one [single_file_success (demo_job\<lparr>status := Done\<rparr>),
                   multi_file_success (demo_job\<lparr>status := Done\<rparr>),
                   failure (demo_job\<lparr>status := Done\<rparr>)]
      \<and> \<not> failure (demo_job\<lparr>status := Done\<rparr>)"
    by (rule t1 [THEN conjunct1, THEN mp]) simp
  have b: "failure (demo_job\<lparr>status := Error, error := Some ''TG sendMessage failed: 502 Bad Gateway''\<rparr>)"
    by (rule t2 [THEN conjunct2, THEN mp]) simp
  show ?thesis
    using a b j1 j2 demo_single_events_fresh(2) by blast
qed

end
